theory Spec2Isabelle
  imports Main
begin

section \<open>Data model of router.ts\<close>

text \<open>
  The router is built on the platform's URLPattern, which is not part of the repository.
  A compiled pattern is immutable and determined by the template it was compiled from,
  so the model represents a pattern by that template and takes the platform's behaviour
  as a parameter: whether \<open>new URLPattern({ pathname })\<close> accepts the template, what
  the \<open>pathname\<close> getter of the compiled pattern returns, and what
  \<open>exec({ pathname })\<close> captures (\<open>None\<close> is JavaScript's \<open>null\<close>).
\<close>

type_synonym params = "string \<rightharpoonup> string"

record matcher =
  compiles :: "string \<Rightarrow> bool"
  pathname_of :: "string \<Rightarrow> string"
  exec :: "string \<Rightarrow> string \<Rightarrow> params option"

text \<open>\<open>pattern.test(input)\<close> is defined by the platform as \<open>exec(input) !== null\<close>.\<close>

definition test :: "matcher \<Rightarrow> string \<Rightarrow> string \<Rightarrow> bool" where
  "test M tpl path = (exec M tpl path \<noteq> None)"

record response =
  status :: nat
  body :: string

text \<open>\<open>new Response()\<close>: status 200 and an empty body.\<close>

definition empty_response :: response where
  "empty_response = \<lparr>status = 200, body = ''''\<rparr>"

record request =
  req_method :: string
  url :: string

text \<open>
  A rejected promise and a thrown exception are both the left summand of a result;
  every handler call is awaited, so a call runs to completion before its caller goes on.
\<close>

datatype error =
    NextCalledMultipleTimes
  | TypeError string
  | Thrown string
  | OuterNextReentered

type_synonym result = "error + response"

text \<open>
  The two functions that are ever stored in the \<open>next\<close> property of a context:
  the \<open>next\<close> of \<open>#handleRoute\<close>, and \<open>next.bind(null, i + 1)\<close> of
  \<open>composeMiddleware\<close>.
\<close>

datatype capability = OuterNext | BoundNext nat

datatype val = VStr string | VParams params | VNext capability

text \<open>The context object: its properties by name.\<close>

type_synonym ctx = "string \<rightharpoonup> val"

text \<open>
  Handlers are supplied by the caller. A middleware handler is a tree of the steps it can
  take on what the router hands it: answer, fail, call \<open>ctx.next()\<close> (the property is
  read when the call is made), call a \<open>next\<close> function it has kept in a variable,
  read the context, or assign a property of the context. The continuation of a call
  receives the outcome of the awaited promise, a failure included, so a handler may
  catch it or pass it on: a handler awaits every call of \<open>next\<close> it makes (or
  returns the promise, which its caller awaits). A handler that calls \<open>next\<close> and
  goes on, or returns, while that call is still pending has no such tree; the
  interleavings it allows are outside the model. The extra arguments of a call
  (\<open>...args\<close>) are handed on to every handler as they are and are left out.
\<close>

datatype action =
    Respond response
  | Throw error
  | CallNext "result \<Rightarrow> action"
  | CallCap capability "result \<Rightarrow> action"
  | ReadCtx "ctx \<Rightarrow> action"
  | SetProp string val action

text \<open>
  \<open>RequestHandler<P, T>\<close> types the context of a route's own handler as
  \<open>T & { params }\<close>: it has no \<open>next\<close> member, so the steps of a request
  handler have no call of \<open>next\<close>.
\<close>

datatype reply =
    Answer response
  | Fail error
  | Look "ctx \<Rightarrow> reply"
  | Assign string val reply

type_synonym MiddlewareHandler = "request \<Rightarrow> action"
type_synonym RequestHandler = "request \<Rightarrow> reply"

text \<open>
  Observation log (not part of the source): each entry into a user-supplied handler is
  recorded together with the context as the handler finds it.
\<close>

datatype event = EnterMiddleware nat ctx | EnterHandler ctx

text \<open>
  What one chain execution works on: the caller's context object, the \<open>index\<close>
  variable of the running composed middleware, and the observation log.
\<close>

record execution =
  ctx :: ctx
  index :: int
  trace :: "event list"

section \<open>Running handlers\<close>

text \<open>\<open>call\<close> is what calling a \<open>next\<close> function does.\<close>

primrec run_action ::
  "(capability \<Rightarrow> execution \<Rightarrow> result \<times> execution) \<Rightarrow> action \<Rightarrow> execution
     \<Rightarrow> result \<times> execution" where
  "run_action call (Respond r) s = (Inr r, s)"
| "run_action call (Throw e) s = (Inl e, s)"
| "run_action call (CallNext k) s =
     (case ctx s ''next'' of
        Some (VNext c) \<Rightarrow> (case call c s of (r, s') \<Rightarrow> run_action call (k r) s')
      | _ \<Rightarrow> run_action call (k (Inl (TypeError ''ctx.next is not a function''))) s)"
| "run_action call (CallCap c k) s = (case call c s of (r, s') \<Rightarrow> run_action call (k r) s')"
| "run_action call (ReadCtx k) s = run_action call (k (ctx s)) s"
| "run_action call (SetProp name v a) s = run_action call a (s\<lparr>ctx := (ctx s)(name \<mapsto> v)\<rparr>)"

primrec run_reply :: "reply \<Rightarrow> execution \<Rightarrow> result \<times> execution" where
  "run_reply (Answer r) s = (Inr r, s)"
| "run_reply (Fail e) s = (Inl e, s)"
| "run_reply (Look k) s = run_reply (k (ctx s)) s"
| "run_reply (Assign name v a) s = run_reply a (s\<lparr>ctx := (ctx s)(name \<mapsto> v)\<rparr>)"

section \<open>composeMiddleware\<close>

text \<open>
  The inner \<open>next(i)\<close> of \<open>composeMiddleware\<close>. Every call that is not rejected
  raises \<open>index\<close> to \<open>i\<close>, so the handlers a call of \<open>next(i)\<close> can still reach
  are those at positions \<open>i\<close> and above: the recursion is on the list of handlers from
  position \<open>base\<close> on. \<open>compose_next_unfold\<close> below shows that the function started
  at position 0 satisfies the recursive equation the source is written as.
  Re-entering the \<open>next\<close> of \<open>#handleRoute\<close> from inside a middleware is outside the
  model (no middleware finds that function in its context: \<open>next.bind\<close> has replaced it
  before the middleware is called).
\<close>

primrec compose_next ::
  "MiddlewareHandler list \<Rightarrow> nat \<Rightarrow> request \<Rightarrow> nat \<Rightarrow> execution \<Rightarrow> result \<times> execution" where
  "compose_next [] base req i s =
     (if int i \<le> index s then (Inl NextCalledMultipleTimes, s)
      else (Inr empty_response, s\<lparr>index := int i\<rparr>))"
| "compose_next (fn # rest) base req i s =
     (if int i \<le> index s then (Inl NextCalledMultipleTimes, s)
      else if i = base then
        (let c = (ctx s)(''next'' \<mapsto> VNext (BoundNext (i + 1)))
         in run_action
              (\<lambda>cap. case cap of
                  BoundNext j \<Rightarrow> compose_next rest (Suc base) req j
                | OuterNext \<Rightarrow> (\<lambda>s'. (Inl OuterNextReentered, s')))
              (fn req)
              (s\<lparr>index := int i, ctx := c, trace := trace s @ [EnterMiddleware i c]\<rparr>))
      else compose_next rest (Suc base) req i s)"

text \<open>Calling a \<open>next\<close> function of the chain over \<open>middlewares\<close>.\<close>

definition invoke ::
  "MiddlewareHandler list \<Rightarrow> request \<Rightarrow> capability \<Rightarrow> execution \<Rightarrow> result \<times> execution" where
  "invoke middlewares req cap =
     (case cap of
        BoundNext j \<Rightarrow> compose_next middlewares 0 req j
      | OuterNext \<Rightarrow> (\<lambda>s. (Inl OuterNextReentered, s)))"

text \<open>The composed handler: \<open>let index = -1; return next(0)\<close>.\<close>

definition composeMiddleware ::
  "MiddlewareHandler list \<Rightarrow> request \<Rightarrow> execution \<Rightarrow> result \<times> execution" where
  "composeMiddleware middlewares req s = compose_next middlewares 0 req 0 (s\<lparr>index := - 1\<rparr>)"

section \<open>Routes and the router's tables\<close>

text \<open>
  \<open>interface StaticRoute\<close> and \<open>interface DynamicRoute extends StaticRoute\<close>. The
  \<open>middleware\<close> property holds \<open>composeMiddleware(collection)\<close>, a closure over a
  freshly built array that nothing else refers to: the model keeps the array.
\<close>

record StaticRoute =
  "method" :: string
  pathname :: string
  handler :: RequestHandler
  middleware :: "MiddlewareHandler list option"

record DynamicRoute = StaticRoute +
  pattern :: string
  params :: params

datatype Route = StaticR StaticRoute | DynamicR DynamicRoute

text \<open>
  Route objects are shared: the tables, the cache and the closures that \<open>match\<close>
  returns refer to the same object, and \<open>match\<close> assigns to its properties. The
  model keeps the objects in a store, one per interface: a cell for every address and
  the number of cells handed out so far. An object is never removed; a cell that has not
  been handed out holds a blank object that nothing refers to. The objects that the
  source uses as dictionaries (\<open>Record<string, ...>\<close>) are maps: a key that has not
  been assigned is looked up as \<open>undefined\<close>.
\<close>

datatype ref = StaticRef nat | DynamicRef nat

text \<open>
  The dictionaries are created by object literals, so in the source a key that has not
  been assigned and that names a member of \<open>Object.prototype\<close> is looked up as that
  member, not as \<open>undefined\<close>: \<open>this.#dynamicRoutes["constructor"]\<close> is the function
  \<open>Object\<close>, and \<open>match\<close> then fails with a \<open>TypeError\<close> on
  \<open>routes[0].pattern\<close>. The maps of the model describe the lookups of the source
  for the keys that are not such names; \<open>inherited\<close> lists the names.
\<close>

definition inherited :: "string \<Rightarrow> bool" where
  "inherited name = (name \<in> set [''constructor'', ''hasOwnProperty'', ''isPrototypeOf'',
     ''propertyIsEnumerable'', ''toLocaleString'', ''toString'', ''valueOf'', ''__proto__'',
     ''__defineGetter__'', ''__defineSetter__'', ''__lookupGetter__'', ''__lookupSetter__''])"

record router =
  cachedRoutes :: "string \<rightharpoonup> (string \<rightharpoonup> ref)"
  dynamicRoutes :: "string \<rightharpoonup> nat list"
  staticRoutes :: "string \<rightharpoonup> (string \<rightharpoonup> nat)"
  middlewares :: "(string \<times> MiddlewareHandler list) list"
  staticObjects :: "nat \<Rightarrow> StaticRoute"
  staticCount :: nat
  dynamicObjects :: "nat \<Rightarrow> DynamicRoute"
  dynamicCount :: nat

definition blank_static :: StaticRoute where
  "blank_static = \<lparr>method = [], pathname = [], handler = (\<lambda>req. Answer empty_response),
     middleware = None\<rparr>"

definition blank_dynamic :: DynamicRoute where
  "blank_dynamic = \<lparr>method = [], pathname = [], handler = (\<lambda>req. Answer empty_response),
     middleware = None, pattern = [], params = Map.empty\<rparr>"

definition new_router :: router where
  "new_router = \<lparr>cachedRoutes = Map.empty, dynamicRoutes = Map.empty,
     staticRoutes = Map.empty, middlewares = [],
     staticObjects = (\<lambda>a. blank_static), staticCount = 0,
     dynamicObjects = (\<lambda>a. blank_dynamic), dynamicCount = 0\<rparr>"

definition deref :: "router \<Rightarrow> ref \<Rightarrow> Route" where
  "deref rt r = (case r of StaticRef a \<Rightarrow> StaticR (staticObjects rt a)
                         | DynamicRef a \<Rightarrow> DynamicR (dynamicObjects rt a))"

section \<open>Registration\<close>

text \<open>The regular expression \<open>/\*|\/:/\<close>: a star anywhere, or a slash followed by a colon.\<close>

fun has_slash_colon :: "string \<Rightarrow> bool" where
  "has_slash_colon (a # b # cs) = ((a = CHR ''/'' \<and> b = CHR '':'') \<or> has_slash_colon (b # cs))"
| "has_slash_colon _ = False"

definition isDynamic :: "string \<Rightarrow> bool" where
  "isDynamic path = (CHR ''*'' \<in> set path \<or> has_slash_colon path)"

text \<open>
  \<open>add\<close> with one method. \<open>new URLPattern\<close> throws a TypeError on a template it
  cannot compile, before any table is touched.
\<close>

definition add ::
  "matcher \<Rightarrow> string \<Rightarrow> string \<Rightarrow> RequestHandler \<Rightarrow> router \<Rightarrow> error + router" where
  "add M meth path h rt =
     (if \<not> isDynamic path then
        (let r = \<lparr>method = meth, pathname = path, handler = h, middleware = None\<rparr>;
             a = staticCount rt
         in Inr (rt\<lparr>staticObjects := (staticObjects rt)(a := r), staticCount := Suc a,
                   staticRoutes := (staticRoutes rt)(meth \<mapsto>
                     (case staticRoutes rt meth of
                        Some table \<Rightarrow> table(path \<mapsto> a)
                      | None \<Rightarrow> [path \<mapsto> a]))\<rparr>))
      else if \<not> compiles M path then Inl (TypeError ''URLPattern: invalid pathname pattern'')
      else
        (let r = \<lparr>method = meth, pathname = path, handler = h, middleware = None,
                   pattern = path, params = Map.empty\<rparr>;
             a = dynamicCount rt
         in Inr (rt\<lparr>dynamicObjects := (dynamicObjects rt)(a := r), dynamicCount := Suc a,
                   dynamicRoutes := (dynamicRoutes rt)(meth \<mapsto>
                     (case dynamicRoutes rt meth of
                        Some routes \<Rightarrow> routes @ [a]
                      | None \<Rightarrow> [a]))\<rparr>)))"

text \<open>\<open>add\<close> with an array of methods: \<open>method.forEach((m) => this.add(m, path, handler))\<close>.\<close>

primrec add_each ::
  "matcher \<Rightarrow> string list \<Rightarrow> string \<Rightarrow> RequestHandler \<Rightarrow> router \<Rightarrow> error + router" where
  "add_each M [] path h rt = Inr rt"
| "add_each M (m # ms) path h rt =
     (case add M m path h rt of Inl e \<Rightarrow> Inl e | Inr rt' \<Rightarrow> add_each M ms path h rt')"

definition get :: "matcher \<Rightarrow> string \<Rightarrow> RequestHandler \<Rightarrow> router \<Rightarrow> error + router" where
  "get M path h rt =
     (case add M ''GET'' path h rt of Inl e \<Rightarrow> Inl e | Inr rt' \<Rightarrow> add M ''HEAD'' path h rt')"

definition post :: "matcher \<Rightarrow> string \<Rightarrow> RequestHandler \<Rightarrow> router \<Rightarrow> error + router" where
  "post M path h rt = add M ''POST'' path h rt"

text \<open>
  \<open>use\<close>: the loop looks for the first entry whose compiled pattern reports the
  given path as its \<open>pathname\<close> and pushes the handler there.
\<close>

primrec use_existing ::
  "matcher \<Rightarrow> string \<Rightarrow> MiddlewareHandler \<Rightarrow> (string \<times> MiddlewareHandler list) list
     \<Rightarrow> (string \<times> MiddlewareHandler list) list option" where
  "use_existing M path h [] = None"
| "use_existing M path h (e # es) =
     (if pathname_of M (fst e) = path then Some ((fst e, snd e @ [h]) # es)
      else map_option (Cons e) (use_existing M path h es))"

definition use :: "matcher \<Rightarrow> string \<Rightarrow> MiddlewareHandler \<Rightarrow> router \<Rightarrow> error + router" where
  "use M path h rt =
     (case use_existing M path h (middlewares rt) of
        Some ms \<Rightarrow> Inr (rt\<lparr>middlewares := ms\<rparr>)
      | None \<Rightarrow>
          if \<not> compiles M path then Inl (TypeError ''URLPattern: invalid pathname pattern'')
          else Inr (rt\<lparr>middlewares := middlewares rt @ [(path, [h])]\<rparr>))"

section \<open>#handleRoute\<close>

definition route_handler :: "Route \<Rightarrow> RequestHandler" where
  "route_handler r = (case r of StaticR x \<Rightarrow> handler x | DynamicR x \<Rightarrow> handler x)"

definition route_middleware :: "Route \<Rightarrow> MiddlewareHandler list option" where
  "route_middleware r = (case r of StaticR x \<Rightarrow> middleware x | DynamicR x \<Rightarrow> middleware x)"

text \<open>\<open>"params" in route ? route.params : {}\<close>\<close>

definition route_params :: "Route \<Rightarrow> params" where
  "route_params r = (case r of StaticR x \<Rightarrow> Map.empty | DynamicR x \<Rightarrow> params x)"

text \<open>
  \<open>Object.assign(context, { next }, params)\<close>: the \<open>next\<close> of \<open>#handleRoute\<close>
  is assigned, then every captured parameter becomes a property of the context itself.
\<close>

definition assign_next_params :: "ctx \<Rightarrow> params \<Rightarrow> ctx" where
  "assign_next_params c ps = (c(''next'' \<mapsto> VNext OuterNext)) ++ (map_option VStr \<circ> ps)"

text \<open>
  The \<open>next\<close> of \<open>#handleRoute\<close>, called once with no argument. A composed
  middleware that fails makes the \<open>await\<close> throw; otherwise its response is
  overwritten by the handler's.
\<close>

definition handleRoute :: "request \<Rightarrow> Route \<Rightarrow> execution \<Rightarrow> result \<times> execution" where
  "handleRoute req route s =
     (let ps = route_params route;
          run_handler = (\<lambda>s1.
            (let c = (ctx s1)(''params'' \<mapsto> VParams ps)
             in run_reply (route_handler route req)
                  (s1\<lparr>ctx := c, trace := trace s1 @ [EnterHandler c]\<rparr>)))
      in case route_middleware route of
           Some collection \<Rightarrow>
             (case composeMiddleware collection req (s\<lparr>ctx := assign_next_params (ctx s) ps\<rparr>) of
                (Inl e, s1) \<Rightarrow> (Inl e, s1)
              | (Inr response, s1) \<Rightarrow> run_handler s1)
         | None \<Rightarrow> run_handler s)"

section \<open>match\<close>

text \<open>The two nested loops that fill \<open>collection\<close>.\<close>

primrec collect ::
  "matcher \<Rightarrow> string \<Rightarrow> (string \<times> MiddlewareHandler list) list \<Rightarrow> MiddlewareHandler list" where
  "collect M path [] = []"
| "collect M path (e # es) =
     (if test M (fst e) path then snd e else []) @ collect M path es"

text \<open>
  The loop \<open>for (let i = possibleDynamicRoutes.length; i--;)\<close> visits the routes from
  the last registered to the first; \<open>scan\<close> is given them in that order.
\<close>

primrec scan ::
  "matcher \<Rightarrow> (nat \<Rightarrow> DynamicRoute) \<Rightarrow> string \<Rightarrow> nat list \<Rightarrow> (nat \<times> params) option" where
  "scan M objs path [] = None"
| "scan M objs path (a # as) =
     (case exec M (pattern (objs a)) path of
        Some groups \<Rightarrow> Some (a, groups)
      | None \<Rightarrow> scan M objs path as)"

definition not_found_handler :: RequestHandler where
  "not_found_handler = (\<lambda>req. Answer \<lparr>status = 404, body = ''Not Found''\<rparr>)"

definition lookup2 :: "('a \<rightharpoonup> ('b \<rightharpoonup> 'c)) \<Rightarrow> 'a \<Rightarrow> 'b \<Rightarrow> 'c option" where
  "lookup2 t k1 k2 = (case t k1 of None \<Rightarrow> None | Some t' \<Rightarrow> t' k2)"

text \<open>
  \<open>match\<close> returns a closure over a route object; the model returns the reference,
  and calling the closure is \<open>handleRoute\<close> on the object as it is then. The
  definition is the source's \<open>match\<close> for a method and a path that are not
  \<open>inherited\<close> names: for those the three lookups of the source find a member of
  \<open>Object.prototype\<close> where the maps have nothing.
\<close>

definition match :: "matcher \<Rightarrow> router \<Rightarrow> string \<Rightarrow> string \<Rightarrow> ref \<times> router" where
  "match M rt meth path =
     (case lookup2 (cachedRoutes rt) meth path of
        Some cached \<Rightarrow> (cached, rt)
      | None \<Rightarrow>
          (let collection = collect M path (middlewares rt) in
           case lookup2 (staticRoutes rt) meth path of
             Some a \<Rightarrow>
               (StaticRef a,
                rt\<lparr>staticObjects := (staticObjects rt)
                      (a := (staticObjects rt a)\<lparr>middleware := Some collection\<rparr>),
                   cachedRoutes := (cachedRoutes rt)(meth \<mapsto> [path \<mapsto> StaticRef a])\<rparr>)
           | None \<Rightarrow>
               (case (case dynamicRoutes rt meth of
                        Some routes \<Rightarrow> scan M (dynamicObjects rt) path (rev routes)
                      | None \<Rightarrow> None) of
                  Some (a, groups) \<Rightarrow>
                    (DynamicRef a,
                     rt\<lparr>dynamicObjects := (dynamicObjects rt)
                           (a := (dynamicObjects rt a)
                                   \<lparr>middleware := Some collection, params := groups\<rparr>),
                        cachedRoutes := (cachedRoutes rt)(meth \<mapsto> [path \<mapsto> DynamicRef a])\<rparr>)
                | None \<Rightarrow>
                    (let notFoundRoute = \<lparr>method = meth, pathname = path,
                           handler = not_found_handler, middleware = Some collection\<rparr>;
                         a = staticCount rt
                     in (StaticRef a,
                         rt\<lparr>staticObjects := (staticObjects rt)(a := notFoundRoute),
                            staticCount := Suc a,
                            cachedRoutes := (cachedRoutes rt)(meth \<mapsto> [path \<mapsto> StaticRef a])\<rparr>)))))"

section \<open>handle\<close>

text \<open>
  The regular expression \<open>/^https?:\/\/[^/]+(\/[^?]*)/\<close>. After \<open>://\<close> the
  class \<open>[^/]+\<close> takes every character up to the first slash and needs at least one;
  the group then takes that slash and everything up to the first question mark.
\<close>

definition strip_prefix :: "string \<Rightarrow> string \<Rightarrow> string option" where
  "strip_prefix p s = (if take (length p) s = p then Some (drop (length p) s) else None)"

definition after_scheme :: "string \<Rightarrow> string option" where
  "after_scheme rest =
     (case strip_prefix ''://'' rest of
        None \<Rightarrow> None
      | Some r \<Rightarrow>
          (let authority = takeWhile (\<lambda>c. c \<noteq> CHR ''/'') r;
               tail = dropWhile (\<lambda>c. c \<noteq> CHR ''/'') r
           in if authority = [] \<or> tail = [] then None
              else Some (takeWhile (\<lambda>c. c \<noteq> CHR ''?'') tail)))"

text \<open>\<open>https?\<close> first tries to take the \<open>s\<close>, and goes on without it if that fails.\<close>

definition url_match :: "string \<Rightarrow> string option" where
  "url_match u =
     (case strip_prefix ''http'' u of
        None \<Rightarrow> None
      | Some rest \<Rightarrow>
          (case (case strip_prefix ''s'' rest of Some r \<Rightarrow> after_scheme r | None \<Rightarrow> None) of
             Some p \<Rightarrow> Some p
           | None \<Rightarrow> after_scheme rest))"

definition extract_pathname :: "string \<Rightarrow> string" where
  "extract_pathname u = (case url_match u of Some p \<Rightarrow> p | None \<Rightarrow> [])"

definition handle ::
  "matcher \<Rightarrow> router \<Rightarrow> request \<Rightarrow> execution \<Rightarrow> (result \<times> execution) \<times> router" where
  "handle M rt req s =
     (case match M rt (req_method req) (extract_pathname (url req)) of
        (r, rt') \<Rightarrow> (handleRoute req (deref rt' r) s, rt'))"

section \<open>Sequences of registrations\<close>

text \<open>
  A program registers its routes and middleware one call after the other; a call that
  throws ends the sequence.
\<close>

datatype registration = Add string string RequestHandler | Use string MiddlewareHandler

definition register1 :: "matcher \<Rightarrow> registration \<Rightarrow> router \<Rightarrow> error + router" where
  "register1 M reg rt = (case reg of Add meth path h \<Rightarrow> add M meth path h rt
                                   | Use path h \<Rightarrow> use M path h rt)"

primrec register :: "matcher \<Rightarrow> registration list \<Rightarrow> router \<Rightarrow> error + router" where
  "register M [] rt = Inr rt"
| "register M (reg # regs) rt =
     (case register1 M reg rt of Inl e \<Rightarrow> Inl e | Inr rt' \<Rightarrow> register M regs rt')"

text \<open>A table of the cache that holds one path.\<close>

definition one_path :: "(string \<rightharpoonup> ref) \<Rightarrow> bool" where
  "one_path table = (\<exists>p x. table = [p \<mapsto> x])"

text \<open>The states a router can be in: registrations and resolutions, in any order.\<close>

inductive reachable :: "matcher \<Rightarrow> router \<Rightarrow> bool" for M :: matcher where
  reach_new: "reachable M new_router"
| reach_add: "reachable M rt \<Longrightarrow> add M meth path h rt = Inr rt' \<Longrightarrow> reachable M rt'"
| reach_use: "reachable M rt \<Longrightarrow> use M path mw rt = Inr rt' \<Longrightarrow> reachable M rt'"
| reach_match: "reachable M rt \<Longrightarrow> match M rt meth path = (r, rt') \<Longrightarrow> reachable M rt'"

section \<open>The earlier variant of the router (src/unnamed/part_001)\<close>

text \<open>
  This variant keeps the route's handler and the middleware attached to it in one array
  \<open>handlers\<close>, and answers a request that resolves to no route with a constant
  function instead of a route object. Only its resolution is modelled; the type of the
  handlers is left open.
\<close>

record 'h StaticRoute_001 =
  method_001 :: string
  pathname_001 :: string
  handlers :: "'h list"

record 'h DynamicRoute_001 = "'h StaticRoute_001" +
  pattern_001 :: string
  params_001 :: params

record 'h router_001 =
  cachedRoutes_001 :: "string \<rightharpoonup> (string \<rightharpoonup> ref)"
  dynamicRoutes_001 :: "string \<rightharpoonup> nat list"
  staticRoutes_001 :: "string \<rightharpoonup> (string \<rightharpoonup> nat)"
  middlewares_001 :: "(string \<times> 'h list) list"
  staticObjects_001 :: "nat \<Rightarrow> 'h StaticRoute_001"
  staticCount_001 :: nat
  dynamicObjects_001 :: "nat \<Rightarrow> 'h DynamicRoute_001"
  dynamicCount_001 :: nat

definition new_router_001 :: "'h router_001" where
  "new_router_001 = \<lparr>cachedRoutes_001 = Map.empty, dynamicRoutes_001 = Map.empty,
     staticRoutes_001 = Map.empty, middlewares_001 = [],
     staticObjects_001 = (\<lambda>a. \<lparr>method_001 = [], pathname_001 = [], handlers = []\<rparr>),
     staticCount_001 = 0,
     dynamicObjects_001 = (\<lambda>a. \<lparr>method_001 = [], pathname_001 = [], handlers = [],
        pattern_001 = [], params_001 = Map.empty\<rparr>),
     dynamicCount_001 = 0\<rparr>"

definition add_001 ::
  "matcher \<Rightarrow> string \<Rightarrow> string \<Rightarrow> 'h \<Rightarrow> 'h router_001 \<Rightarrow> error + 'h router_001" where
  "add_001 M meth path h rt =
     (if \<not> isDynamic path then
        (let r = \<lparr>method_001 = meth, pathname_001 = path, handlers = [h]\<rparr>;
             a = staticCount_001 rt
         in Inr (rt\<lparr>staticObjects_001 := (staticObjects_001 rt)(a := r),
                   staticCount_001 := Suc a,
                   staticRoutes_001 := (staticRoutes_001 rt)(meth \<mapsto>
                     (case staticRoutes_001 rt meth of
                        Some table \<Rightarrow> table(path \<mapsto> a)
                      | None \<Rightarrow> [path \<mapsto> a]))\<rparr>))
      else if \<not> compiles M path then Inl (TypeError ''URLPattern: invalid pathname pattern'')
      else
        (let r = \<lparr>method_001 = meth, pathname_001 = path, handlers = [h],
                   pattern_001 = path, params_001 = Map.empty\<rparr>;
             a = dynamicCount_001 rt
         in Inr (rt\<lparr>dynamicObjects_001 := (dynamicObjects_001 rt)(a := r),
                   dynamicCount_001 := Suc a,
                   dynamicRoutes_001 := (dynamicRoutes_001 rt)(meth \<mapsto>
                     (case dynamicRoutes_001 rt meth of
                        Some routes \<Rightarrow> routes @ [a]
                      | None \<Rightarrow> [a]))\<rparr>)))"

text \<open>
  The loop \<open>for (let i = this.#middlewares.length; i--;)\<close> pushes the handler array
  of every entry that matches; it is given the entries from the last to the first.
\<close>

primrec collect_001 :: "matcher \<Rightarrow> string \<Rightarrow> (string \<times> 'h list) list \<Rightarrow> 'h list list" where
  "collect_001 M path [] = []"
| "collect_001 M path (e # es) =
     (if test M (fst e) path then [snd e] else []) @ collect_001 M path es"

text \<open>\<open>#attachMiddleware\<close> pushes every handler of every array onto \<open>route.handlers\<close>.\<close>

definition attachMiddleware :: "'h list \<Rightarrow> 'h list list \<Rightarrow> 'h list" where
  "attachMiddleware route_handlers collection = route_handlers @ concat collection"

primrec scan_001 ::
  "matcher \<Rightarrow> (nat \<Rightarrow> 'h DynamicRoute_001) \<Rightarrow> string \<Rightarrow> nat list \<Rightarrow> (nat \<times> params) option" where
  "scan_001 M objs path [] = None"
| "scan_001 M objs path (a # as) =
     (case exec M (pattern_001 (objs a)) path of
        Some groups \<Rightarrow> Some (a, groups)
      | None \<Rightarrow> scan_001 M objs path as)"

text \<open>
  What \<open>match\<close> returns in this variant: a closure over a route object, or a
  function that ignores its arguments and answers with a constant response. As for
  \<open>match\<close> of \<open>router.ts\<close>, the definition is the source's for a method and a path
  that are not \<open>inherited\<close> names (\<open>!routes\<close> is false for the function
  \<open>Object\<close>, and \<open>r.pattern\<close> then fails on \<open>routes[0]\<close>).
\<close>

datatype chain_001 = Through ref | Constant response

definition match_001 ::
  "matcher \<Rightarrow> 'h router_001 \<Rightarrow> string \<Rightarrow> string \<Rightarrow> chain_001 \<times> 'h router_001" where
  "match_001 M rt meth path =
     (case lookup2 (cachedRoutes_001 rt) meth path of
        Some cached \<Rightarrow> (Through cached, rt)
      | None \<Rightarrow>
          (let collection = collect_001 M path (rev (middlewares_001 rt)) in
           case lookup2 (staticRoutes_001 rt) meth path of
             Some a \<Rightarrow>
               (Through (StaticRef a),
                rt\<lparr>staticObjects_001 := (staticObjects_001 rt)
                      (a := (staticObjects_001 rt a)
                         \<lparr>handlers := attachMiddleware (handlers (staticObjects_001 rt a)) collection\<rparr>),
                   cachedRoutes_001 := (cachedRoutes_001 rt)(meth \<mapsto> [path \<mapsto> StaticRef a])\<rparr>)
           | None \<Rightarrow>
               (case dynamicRoutes_001 rt meth of
                  None \<Rightarrow> (Constant \<lparr>status = 405, body = ''Method Not Allowed''\<rparr>, rt)
                | Some routes \<Rightarrow>
                    (case scan_001 M (dynamicObjects_001 rt) path (rev routes) of
                       Some (a, groups) \<Rightarrow>
                         (Through (DynamicRef a),
                          rt\<lparr>dynamicObjects_001 := (dynamicObjects_001 rt)
                                (a := (dynamicObjects_001 rt a)
                                   \<lparr>handlers := attachMiddleware
                                       (handlers (dynamicObjects_001 rt a)) collection,
                                    params_001 := groups\<rparr>),
                             cachedRoutes_001 :=
                               (cachedRoutes_001 rt)(meth \<mapsto> [path \<mapsto> DynamicRef a])\<rparr>)
                     | None \<Rightarrow> (Constant \<lparr>status = 404, body = ''Not Found''\<rparr>, rt)))))"

section \<open>Inputs for evaluating the model\<close>

text \<open>
  A small stand-in for the platform's URLPattern, for evaluating the model on examples:
  it compiles every template, reports the template as its \<open>pathname\<close>, and matches
  templates made of literal segments and \<open>:name\<close> segments, segment by segment.
\<close>

primrec split_on :: "char \<Rightarrow> string \<Rightarrow> string list" where
  "split_on c [] = [[]]"
| "split_on c (x # xs) =
     (if x = c then [] # split_on c xs
      else (case split_on c xs of y # ys \<Rightarrow> (x # y) # ys | [] \<Rightarrow> [[x]]))"

fun match_segments :: "string list \<Rightarrow> string list \<Rightarrow> (string \<times> string) list option" where
  "match_segments [] [] = Some []"
| "match_segments (t # ts) (p # ps) =
     (case t of
        CHR '':'' # name \<Rightarrow>
          (if p = [] then None else map_option (Cons (name, p)) (match_segments ts ps))
      | _ \<Rightarrow> if t = p then match_segments ts ps else None)"
| "match_segments _ _ = None"

definition segment_matcher :: matcher where
  "segment_matcher = \<lparr>compiles = (\<lambda>tpl. True), pathname_of = (\<lambda>tpl. tpl),
     exec = (\<lambda>tpl path. map_option map_of
               (match_segments (split_on CHR ''/'' tpl) (split_on CHR ''/'' path)))\<rparr>"

definition fresh :: execution where
  "fresh = \<lparr>ctx = Map.empty, index = - 1, trace = []\<rparr>"

text \<open>A middleware that answers without calling \<open>next\<close>.\<close>

definition blocker :: MiddlewareHandler where
  "blocker = (\<lambda>req. Respond \<lparr>status = 403, body = ''blocked''\<rparr>)"

text \<open>A middleware that sets a property and returns \<open>ctx.next()\<close>.\<close>

definition tagger :: "string \<Rightarrow> MiddlewareHandler" where
  "tagger name = (\<lambda>req. SetProp name (VStr ''yes'')
     (CallNext (\<lambda>r. case r of Inl e \<Rightarrow> Throw e | Inr resp \<Rightarrow> Respond resp)))"

text \<open>
  A middleware that keeps its \<open>next\<close> in a variable, awaits it, and returns a second
  call of it.
\<close>

definition twice :: MiddlewareHandler where
  "twice = (\<lambda>req. ReadCtx (\<lambda>c.
     case c ''next'' of
       Some (VNext cap) \<Rightarrow>
         CallCap cap (\<lambda>r1. CallCap cap
           (\<lambda>r2. case r2 of Inl e \<Rightarrow> Throw e | Inr resp \<Rightarrow> Respond resp))
     | _ \<Rightarrow> Throw (TypeError ''ctx.next is not a function'')))"

text \<open>A request handler that records that it ran.\<close>

definition marking :: RequestHandler where
  "marking = (\<lambda>req. Assign ''ran'' (VStr ''yes'') (Answer \<lparr>status = 200, body = ''ok''\<rparr>))"

text \<open>The handler of the README: \<open>new Response(`Contact: ${ctx.params.name}`)\<close>.\<close>

definition contact :: RequestHandler where
  "contact = (\<lambda>req. Look (\<lambda>c.
     case c ''params'' of
       Some (VParams ps) \<Rightarrow>
         Answer \<lparr>status = 200,
                 body = ''Contact: '' @ (case ps ''name'' of Some n \<Rightarrow> n | None \<Rightarrow> ''undefined'')\<rparr>
     | _ \<Rightarrow> Fail (TypeError ''ctx.params is undefined'')))"

text \<open>Which handler an entry of the log is about: a middleware position, or the route's handler.\<close>

primrec entered :: "event \<Rightarrow> nat option" where
  "entered (EnterMiddleware i c) = Some i"
| "entered (EnterHandler c) = None"

primrec entered_with :: "event \<Rightarrow> ctx" where
  "entered_with (EnterMiddleware i c) = c"
| "entered_with (EnterHandler c) = c"

section \<open>Notions used in the statements\<close>

text \<open>
  What the composed middleware over \<open>n\<close> handlers may add to the log: entries of
  middleware only, each at a position below \<open>n\<close> and with the \<open>next\<close> of the
  following position in its context, at strictly increasing positions.
\<close>

definition middleware_log :: "nat \<Rightarrow> event list \<Rightarrow> bool" where
  "middleware_log n es =
     ((\<forall>e\<in>set es. \<exists>i c. e = EnterMiddleware i c \<and> i < n
          \<and> c ''next'' = Some (VNext (BoundNext (Suc i))))
      \<and> sorted_wrt (<) (List.map_filter entered es))"

text \<open>
  A middleware that passes on: whatever it finds in the context, it calls
  \<open>ctx.next()\<close> before it answers, fails or calls a function it has kept, and it has
  not assigned the \<open>next\<close> property itself before that call. What it does with the
  outcome of the call is left open.
\<close>

primrec calls_next :: "action \<Rightarrow> bool" where
  "calls_next (Respond r) = False"
| "calls_next (Throw e) = False"
| "calls_next (CallNext k) = True"
| "calls_next (CallCap c k) = False"
| "calls_next (ReadCtx k) = (\<forall>c. calls_next (k c))"
| "calls_next (SetProp name v a) = (name \<noteq> ''next'' \<and> calls_next a)"

text \<open>The parameters that a context carries under \<open>params\<close>.\<close>

definition params_of :: "ctx \<Rightarrow> params" where
  "params_of c = (case c ''params'' of Some (VParams ps) \<Rightarrow> ps | _ \<Rightarrow> Map.empty)"

text \<open>
  What an entry of the log shows of the context the handler found: a middleware finds the
  \<open>next\<close> bound to the position behind its own, the route's handler finds the
  parameters of the route.
\<close>

definition entry_seen :: "Route \<Rightarrow> event \<Rightarrow> bool" where
  "entry_seen route e =
     (case e of
        EnterMiddleware i c \<Rightarrow> c ''next'' = Some (VNext (BoundNext (Suc i)))
      | EnterHandler c \<Rightarrow> c ''params'' = Some (VParams (route_params route)))"

text \<open>
  Well-formedness of the router's state: the tables and the cache refer to objects that
  have been created, and a cached route carries its composed middleware.
\<close>

definition ref_ok :: "router \<Rightarrow> ref \<Rightarrow> bool" where
  "ref_ok rt r = (case r of StaticRef a \<Rightarrow> a < staticCount rt | DynamicRef a \<Rightarrow> a < dynamicCount rt)"

definition router_inv :: "router \<Rightarrow> bool" where
  "router_inv rt =
     ((\<forall>m p a. lookup2 (staticRoutes rt) m p = Some a \<longrightarrow> a < staticCount rt)
      \<and> (\<forall>m rs. dynamicRoutes rt m = Some rs \<longrightarrow> (\<forall>a\<in>set rs. a < dynamicCount rt))
      \<and> (\<forall>m p r. lookup2 (cachedRoutes rt) m p = Some r \<longrightarrow>
            ref_ok rt r \<and> route_middleware (deref rt r) \<noteq> None))"

section \<open>Properties of running a chain\<close>

text \<open>
  A property of executions that no call of \<open>next\<close> and no assignment to the context
  destroys holds after a handler has run.
\<close>

lemma run_action_preserves:
  assumes call: "\<And>c s. P s \<Longrightarrow> P (snd (call c s))"
    and upd: "\<And>s name v. P s \<Longrightarrow> P (s\<lparr>ctx := (ctx s)(name \<mapsto> v)\<rparr>)"
  shows "P s \<Longrightarrow> P (snd (run_action call a s))"
proof (induction a arbitrary: s)
  case (CallNext k)
  show ?case
  proof (cases "\<exists>c. ctx s ''next'' = Some (VNext c)")
    case True
    then obtain c where c: "ctx s ''next'' = Some (VNext c)" by blast
    obtain r s' where rs: "call c s = (r, s')" by (cases "call c s")
    have "P s'" using call[OF CallNext.prems, of c] rs by simp
    then have "P (snd (run_action call (k r) s'))" by (rule CallNext.IH[OF rangeI])
    then show ?thesis using c rs by simp
  next
    case False
    then show ?thesis using CallNext.IH[OF rangeI CallNext.prems]
      by (auto split: option.splits val.splits)
  qed
next
  case (CallCap c k)
  obtain r s' where rs: "call c s = (r, s')" by (cases "call c s")
  have "P s'" using call[OF CallCap.prems, of c] rs by simp
  then have "P (snd (run_action call (k r) s'))" by (rule CallCap.IH[OF rangeI])
  then show ?case using rs by simp
next
  case (ReadCtx k)
  then show ?case using ReadCtx.IH[OF rangeI] by simp
qed (auto intro: upd)

text \<open>Two meanings of \<open>next\<close> that agree wherever a handler can call them run it alike.\<close>

lemma run_action_cong_on:
  assumes agree: "\<And>c s. P s \<Longrightarrow> call c s = call' c s"
    and call: "\<And>c s. P s \<Longrightarrow> P (snd (call c s))"
    and upd: "\<And>s name v. P s \<Longrightarrow> P (s\<lparr>ctx := (ctx s)(name \<mapsto> v)\<rparr>)"
  shows "P s \<Longrightarrow> run_action call a s = run_action call' a s"
proof (induction a arbitrary: s)
  case (CallNext k)
  show ?case
  proof (cases "\<exists>c. ctx s ''next'' = Some (VNext c)")
    case True
    then obtain c where c: "ctx s ''next'' = Some (VNext c)" by blast
    obtain r s' where rs: "call c s = (r, s')" by (cases "call c s")
    have "P s'" using call[OF CallNext.prems, of c] rs by simp
    then have "run_action call (k r) s' = run_action call' (k r) s'"
      by (rule CallNext.IH[OF rangeI])
    then show ?thesis using c rs agree[OF CallNext.prems, of c] by simp
  next
    case False
    then show ?thesis using CallNext.IH[OF rangeI CallNext.prems]
      by (auto split: option.splits val.splits)
  qed
next
  case (CallCap c k)
  obtain r s' where rs: "call c s = (r, s')" by (cases "call c s")
  have "P s'" using call[OF CallCap.prems, of c] rs by simp
  then have "run_action call (k r) s' = run_action call' (k r) s'"
    by (rule CallCap.IH[OF rangeI])
  then show ?case using rs agree[OF CallCap.prems, of c] by simp
next
  case (ReadCtx k)
  then show ?case using ReadCtx.IH[OF rangeI] by simp
qed (auto intro: upd)

lemma run_reply_preserves:
  assumes upd: "\<And>s name v. P s \<Longrightarrow> P (s\<lparr>ctx := (ctx s)(name \<mapsto> v)\<rparr>)"
  shows "P s \<Longrightarrow> P (snd (run_reply a s))"
proof (induction a arbitrary: s)
  case (Look k)
  then show ?case using Look.IH[OF rangeI] by simp
qed (auto intro: upd)

text \<open>\<open>index\<close> never goes down, and an accepted call of \<open>next(i)\<close> raises it to \<open>i\<close>.\<close>

lemma compose_next_index_ge:
  "n \<le> index s \<Longrightarrow> n \<le> index (snd (compose_next ms b req i s))"
proof (induction ms arbitrary: b i s)
  case Nil
  then show ?case by auto
next
  case (Cons fn rest)
  show ?case
  proof (cases "int i \<le> index s")
    case True
    then show ?thesis using Cons.prems by simp
  next
    case False
    show ?thesis
    proof (cases "i = b")
      case True
      have "n \<le> index (snd (run_action
              (\<lambda>cap. case cap of BoundNext j \<Rightarrow> compose_next rest (Suc b) req j
                 | OuterNext \<Rightarrow> (\<lambda>s'. (Inl OuterNextReentered, s')))
              (fn req) s0))" if "n \<le> index s0" for s0
        by (rule run_action_preserves[where P="\<lambda>s. n \<le> index s"])
           (auto simp: that Cons.IH split: capability.splits)
      then show ?thesis using False True Cons.prems by (simp add: Let_def)
    next
      case other: False
      then show ?thesis using False Cons.IH[OF Cons.prems] by simp
    qed
  qed
qed

lemma compose_next_reaches:
  "index s < int i \<Longrightarrow> int i \<le> index (snd (compose_next ms b req i s))"
proof (induction ms arbitrary: b s)
  case Nil
  then show ?case by auto
next
  case (Cons fn rest)
  show ?case
  proof (cases "i = b")
    case True
    have "int i \<le> index (snd (run_action
              (\<lambda>cap. case cap of BoundNext j \<Rightarrow> compose_next rest (Suc b) req j
                 | OuterNext \<Rightarrow> (\<lambda>s'. (Inl OuterNextReentered, s')))
              (fn req) s0))" if "int i \<le> index s0" for s0
      by (rule run_action_preserves[where P="\<lambda>s. int i \<le> index s"])
         (auto simp: that compose_next_index_ge split: capability.splits)
    then show ?thesis using True Cons.prems by (simp add: Let_def)
  next
    case False
    then show ?thesis using Cons.IH[OF Cons.prems] Cons.prems by simp
  qed
qed

lemma compose_next_rejects:
  "int i \<le> index s \<Longrightarrow> compose_next ms b req i s = (Inl NextCalledMultipleTimes, s)"
  by (cases ms) auto

text \<open>A call of \<open>next(i)\<close> passes over the handlers in front of position \<open>i\<close>.\<close>

lemma compose_next_skip:
  "b + length pre \<le> i \<Longrightarrow>
   compose_next (pre @ suf) b req i s = compose_next suf (b + length pre) req i s"
proof (induction pre arbitrary: b)
  case Nil
  then show ?case by simp
next
  case (Cons fn pre)
  have "compose_next (pre @ suf) (Suc b) req i s = compose_next suf (Suc b + length pre) req i s"
    using Cons.prems by (intro Cons.IH) simp
  moreover have "i \<noteq> b" using Cons.prems by simp
  ultimately show ?case
    by (cases suf) auto
qed

lemma invoke_suffix_agree:
  assumes "int i \<le> index s" "i < length ms"
  shows "(case cap of BoundNext j \<Rightarrow> compose_next (drop (Suc i) ms) (Suc i) req j
                 | OuterNext \<Rightarrow> (\<lambda>s'. (Inl OuterNextReentered, s'))) s = invoke ms req cap s"
proof (cases cap)
  case OuterNext
  then show ?thesis by (simp add: invoke_def)
next
  case (BoundNext j)
  show ?thesis
  proof (cases "int j \<le> index s")
    case True
    then show ?thesis using BoundNext by (simp add: invoke_def compose_next_rejects)
  next
    case False
    then have "Suc i \<le> j" using assms by linarith
    then have "compose_next (take (Suc i) ms @ drop (Suc i) ms) 0 req j s
               = compose_next (drop (Suc i) ms) (0 + length (take (Suc i) ms)) req j s"
      using assms by (intro compose_next_skip) simp
    then show ?thesis using BoundNext assms by (simp add: invoke_def min_def)
  qed
qed

text \<open>
  The recursive equation of the source: \<open>if (i <= index) reject; index = i;
  fn = middlewares.at(i); if (!fn) resolve(new Response());
  fn(request, Object.assign(context, { next: next.bind(null, i + 1) }))\<close>, where every
  \<open>next\<close> a handler calls is again this function.
\<close>

lemma compose_next_unfold:
  "compose_next mws 0 req i s =
     (if int i \<le> index s then (Inl NextCalledMultipleTimes, s)
      else if i < length mws then
        (let c = (ctx s)(''next'' \<mapsto> VNext (BoundNext (i + 1)))
         in run_action (invoke mws req) ((mws ! i) req)
              (s\<lparr>index := int i, ctx := c, trace := trace s @ [EnterMiddleware i c]\<rparr>))
      else (Inr empty_response, s\<lparr>index := int i\<rparr>))"
proof (cases "int i \<le> index s")
  case True
  then show ?thesis by (simp add: compose_next_rejects)
next
  case False
  show ?thesis
  proof (cases "i < length mws")
    case True
    let ?c = "(ctx s)(''next'' \<mapsto> VNext (BoundNext (i + 1)))"
    let ?s0 = "s\<lparr>index := int i, ctx := ?c, trace := trace s @ [EnterMiddleware i ?c]\<rparr>"
    let ?inner = "\<lambda>cap. case cap of BoundNext j \<Rightarrow> compose_next (drop (Suc i) mws) (Suc i) req j
                 | OuterNext \<Rightarrow> (\<lambda>s'. (Inl OuterNextReentered, s'))"
    have split: "mws = take i mws @ (mws ! i) # drop (Suc i) mws"
      using True by (simp add: id_take_nth_drop)
    have "compose_next mws 0 req i s
          = compose_next (take i mws @ (mws ! i) # drop (Suc i) mws) 0 req i s"
      using split by simp
    also have "\<dots> = compose_next ((mws ! i) # drop (Suc i) mws) i req i s"
      using True compose_next_skip[of 0 "take i mws" i "(mws ! i) # drop (Suc i) mws" req s]
      by (simp add: min_def)
    also have "\<dots> = run_action ?inner ((mws ! i) req) ?s0"
      using False by (simp add: Let_def)
    also have "\<dots> = run_action (invoke mws req) ((mws ! i) req) ?s0"
    proof (rule run_action_cong_on[where P="\<lambda>s. int i \<le> index s"])
      fix c and s' :: execution assume "int i \<le> index s'"
      then show "?inner c s' = invoke mws req c s'"
        using invoke_suffix_agree[OF _ True] by simp
    next
      fix c and s' :: execution assume "int i \<le> index s'"
      then show "int i \<le> index (snd (?inner c s'))"
        by (auto simp: compose_next_index_ge split: capability.splits)
    qed simp_all
    finally show ?thesis using False True by (simp add: Let_def)
  next
    case beyond: False
    then have "compose_next (mws @ []) 0 req i s = compose_next [] (0 + length mws) req i s"
      by (intro compose_next_skip) simp
    then show ?thesis using False beyond by simp
  qed
qed

section \<open>Properties of resolution\<close>

lemma match_hit:
  "lookup2 (cachedRoutes rt) meth path = Some r \<Longrightarrow> match M rt meth path = (r, rt)"
  by (simp add: match_def)

lemma match_caches:
  "match M rt meth path = (r, rt') \<Longrightarrow> lookup2 (cachedRoutes rt') meth path = Some r"
  by (auto simp: match_def lookup2_def Let_def split: option.splits prod.splits)

lemma match_miss_cache:
  "lookup2 (cachedRoutes rt) meth path = None \<Longrightarrow> match M rt meth path = (r, rt')
   \<Longrightarrow> cachedRoutes rt' = (cachedRoutes rt)(meth \<mapsto> [path \<mapsto> r])"
  by (auto simp: match_def Let_def split: option.splits prod.splits)

lemma one_path_single: "one_path [p \<mapsto> x]"
  unfolding one_path_def by blast

lemmas registration_defs = register1_def add_def use_def isDynamic_def new_router_def
  segment_matcher_def Let_def

lemmas dispatch_defs = handle_def match_def lookup2_def extract_pathname_def url_match_def
  strip_prefix_def after_scheme_def handleRoute_def deref_def route_params_def
  route_middleware_def route_handler_def composeMiddleware_def test_def fresh_def
  assign_next_params_def not_found_handler_def

text \<open>
  C3. Two calls of \<open>match\<close> with the same method and path, with no registration in
  between, return the same chain: the second call finds the route object that the first
  one stored in the cache, returns a reference to that very object and changes nothing,
  so the composed middleware, the route's handler and the parameters are those of the
  first chain, and calling either chain does the same to every request and context. In
  particular a cache hit behaves as the resolution that filled the cache.
\<close>

theorem match_twice_same_chain:
  assumes "match M rt meth path = (r1, rt1)"
    and "match M rt1 meth path = (r2, rt2)"
  shows "r2 = r1 \<and> rt2 = rt1
    \<and> route_middleware (deref rt2 r2) = route_middleware (deref rt1 r1)
    \<and> route_handler (deref rt2 r2) = route_handler (deref rt1 r1)
    \<and> route_params (deref rt2 r2) = route_params (deref rt1 r1)
    \<and> (\<forall>req s. handleRoute req (deref rt2 r2) s = handleRoute req (deref rt1 r1) s)"
proof -
  have "lookup2 (cachedRoutes rt1) meth path = Some r1"
    using assms(1) by (rule match_caches)
  then have "match M rt1 meth path = (r1, rt1)" by (rule match_hit)
  with assms(2) show ?thesis by simp
qed

text \<open>A new router resolves \<open>GET /x\<close> twice: the same reference, the same state.\<close>

theorem match_twice_same_chain_witness:
  "\<exists>rt1. match segment_matcher new_router ''GET'' ''/x'' = (StaticRef 0, rt1)
     \<and> match segment_matcher rt1 ''GET'' ''/x'' = (StaticRef 0, rt1)"
proof -
  obtain rt1 where first: "match segment_matcher new_router ''GET'' ''/x'' = (StaticRef 0, rt1)"
    by (simp add: match_def lookup2_def new_router_def)
  obtain r2 rt2 where second: "match segment_matcher rt1 ''GET'' ''/x'' = (r2, rt2)"
    by (cases "match segment_matcher rt1 ''GET'' ''/x''")
  have "r2 = StaticRef 0 \<and> rt2 = rt1"
    using match_twice_same_chain[OF first second] by simp
  with first second show ?thesis by blast
qed

text \<open>
  C9. A call of \<open>match\<close> that misses the cache replaces the cache of the method by a
  table with exactly one entry, the path just resolved: whatever path was cached for that
  method before is gone, and the caches of the other methods are left as they were. So in
  every state a router can reach, the cache of a method never holds two paths.
\<close>

theorem match_miss_single_entry:
  assumes "reachable M rt"
    and "lookup2 (cachedRoutes rt) meth path = None"
    and "match M rt meth path = (r, rt')"
  shows "cachedRoutes rt' meth = Some [path \<mapsto> r]
    \<and> (\<forall>other. other \<noteq> path \<longrightarrow> lookup2 (cachedRoutes rt') meth other = None)
    \<and> (\<forall>m. m \<noteq> meth \<longrightarrow> cachedRoutes rt' m = cachedRoutes rt m)
    \<and> (\<forall>m table. cachedRoutes rt' m = Some table \<longrightarrow> one_path table)"
proof -
  have single: "\<forall>m table. cachedRoutes rt m = Some table \<longrightarrow> one_path table"
    using assms(1)
  proof (induction rule: reachable.induct)
    case reach_new
    then show ?case by (simp add: new_router_def)
  next
    case (reach_add rt meth path h rt')
    then show ?case by (auto simp: add_def Let_def split: if_splits)
  next
    case (reach_use rt path mw rt')
    then show ?case by (auto simp: use_def split: option.splits if_splits)
  next
    case (reach_match rt meth path r rt')
    show ?case
    proof (cases "lookup2 (cachedRoutes rt) meth path")
      case None
      then have eq: "cachedRoutes rt' = (cachedRoutes rt)(meth \<mapsto> [path \<mapsto> r])"
        using reach_match.hyps(2) by (rule match_miss_cache)
      show ?thesis
        using reach_match.IH one_path_single by (simp add: eq)
    next
      case (Some x)
      then have "rt' = rt" using reach_match.hyps(2) by (simp add: match_hit)
      then show ?thesis using reach_match.IH by simp
    qed
  qed
  have "cachedRoutes rt' = (cachedRoutes rt)(meth \<mapsto> [path \<mapsto> r])"
    using assms(2,3) by (rule match_miss_cache)
  then show ?thesis using single one_path_single by (simp add: lookup2_def)
qed

text \<open>
  A router that has resolved \<open>GET /x\<close> resolves \<open>GET /y\<close>: the cache of
  \<open>GET\<close> then holds \<open>/y\<close> only.
\<close>

theorem match_miss_single_entry_witness:
  "\<exists>rt1 rt2. match segment_matcher new_router ''GET'' ''/x'' = (StaticRef 0, rt1)
     \<and> reachable segment_matcher rt1
     \<and> lookup2 (cachedRoutes rt1) ''GET'' ''/x'' = Some (StaticRef 0)
     \<and> lookup2 (cachedRoutes rt1) ''GET'' ''/y'' = None
     \<and> match segment_matcher rt1 ''GET'' ''/y'' = (StaticRef 1, rt2)
     \<and> cachedRoutes rt2 ''GET'' = Some [''/y'' \<mapsto> StaticRef 1]
     \<and> lookup2 (cachedRoutes rt2) ''GET'' ''/x'' = None"
proof -
  obtain rt1 where m1: "match segment_matcher new_router ''GET'' ''/x'' = (StaticRef 0, rt1)"
    by (simp add: match_def lookup2_def new_router_def)
  have r: "reachable segment_matcher rt1"
    using reach_match[OF reach_new m1] .
  have hit: "lookup2 (cachedRoutes rt1) ''GET'' ''/x'' = Some (StaticRef 0)"
    using m1 by (rule match_caches)
  have miss: "lookup2 (cachedRoutes rt1) ''GET'' ''/y'' = None"
    using m1[symmetric] by (simp add: match_def lookup2_def new_router_def)
  obtain rt2 where m2: "match segment_matcher rt1 ''GET'' ''/y'' = (StaticRef 1, rt2)"
    using m1[symmetric] by (simp add: match_def lookup2_def new_router_def)
  have "cachedRoutes rt2 ''GET'' = Some [''/y'' \<mapsto> StaticRef 1]
        \<and> lookup2 (cachedRoutes rt2) ''GET'' ''/x'' = None"
    using match_miss_single_entry[OF r miss m2] by simp
  with m1 r hit miss m2 show ?thesis by blast
qed

section \<open>The pathname of a request\<close>

lemma strip_prefix_append: "strip_prefix p (p @ s) = Some s"
  by (simp add: strip_prefix_def)

lemma strip_prefix_Some: "strip_prefix p s = Some r \<Longrightarrow> s = p @ r"
  by (auto simp: strip_prefix_def split: if_splits) (metis append_take_drop_id)

lemma after_scheme_form:
  assumes "authority \<noteq> []" "CHR ''/'' \<notin> set authority"
  shows "after_scheme (''://'' @ authority @ CHR ''/'' # rest)
         = Some (CHR ''/'' # takeWhile (\<lambda>c. c \<noteq> CHR ''?'') rest)"
proof -
  have t: "takeWhile (\<lambda>c. c \<noteq> CHR ''/'') (authority @ CHR ''/'' # rest) = authority"
    using assms(2) by (subst takeWhile_append2) auto
  have d: "dropWhile (\<lambda>c. c \<noteq> CHR ''/'') (authority @ CHR ''/'' # rest) = CHR ''/'' # rest"
    using assms(2) by (subst dropWhile_append2) auto
  have "strip_prefix ''://'' (''://'' @ authority @ CHR ''/'' # rest) = Some (authority @ CHR ''/'' # rest)"
    by (rule strip_prefix_append)
  then show ?thesis using t d assms(1) by (simp add: after_scheme_def Let_def)
qed

lemma after_scheme_Some:
  assumes "after_scheme u = Some p"
  shows "\<exists>authority rest. u = ''://'' @ authority @ CHR ''/'' # rest \<and> authority \<noteq> []
           \<and> CHR ''/'' \<notin> set authority \<and> p = CHR ''/'' # takeWhile (\<lambda>c. c \<noteq> CHR ''?'') rest"
proof -
  from assms obtain r where r: "strip_prefix ''://'' u = Some r"
    by (auto simp: after_scheme_def split: option.splits)
  let ?a = "takeWhile (\<lambda>c. c \<noteq> CHR ''/'') r" and ?t = "dropWhile (\<lambda>c. c \<noteq> CHR ''/'') r"
  from assms r have ne: "?a \<noteq> []" "?t \<noteq> []" and p: "p = takeWhile (\<lambda>c. c \<noteq> CHR ''?'') ?t"
    by (auto simp: after_scheme_def Let_def split: if_splits)
  from ne(2) obtain rest where t: "?t = CHR ''/'' # rest"
    by (cases ?t) (auto simp: dropWhile_eq_Cons_conv)
  have "r = ?a @ ?t" by simp
  then have "u = ''://'' @ ?a @ CHR ''/'' # rest" using strip_prefix_Some[OF r] t by simp
  moreover have "CHR ''/'' \<notin> set ?a" by (auto dest: set_takeWhileD)
  ultimately show ?thesis using ne(1) p t by auto
qed

text \<open>
  C8, as amended. For a request URL \<open>http://authority/rest\<close> or
  \<open>https://authority/rest\<close>, with a non-empty authority that has no slash, the
  pathname is the substring that starts at the first slash behind the authority and ends
  before the first question mark behind that slash, or at the end of the URL when there
  is none. A query string is cut off; a fragment is not looked for, so it stays in the
  pathname unless a question mark stands in front of it. Only URLs of this form give a
  pathname that is not empty. \<open>handle\<close> resolves on that pathname and the method of
  the request, and calls the chain.
\<close>

theorem extract_pathname_http:
  "((scheme = ''http'' \<or> scheme = ''https'') \<and> authority \<noteq> [] \<and> CHR ''/'' \<notin> set authority \<longrightarrow>
      extract_pathname (scheme @ ''://'' @ authority @ CHR ''/'' # rest)
        = CHR ''/'' # takeWhile (\<lambda>c. c \<noteq> CHR ''?'') rest)
   \<and> (extract_pathname u \<noteq> [] \<longrightarrow>
        (\<exists>scheme authority rest. u = scheme @ ''://'' @ authority @ CHR ''/'' # rest
           \<and> (scheme = ''http'' \<or> scheme = ''https'') \<and> authority \<noteq> []
           \<and> CHR ''/'' \<notin> set authority))
   \<and> handle M rt req s =
        (case match M rt (req_method req) (extract_pathname (url req)) of
           (r, rt') \<Rightarrow> (handleRoute req (deref rt' r) s, rt'))"
proof (intro conjI impI)
  assume a: "(scheme = ''http'' \<or> scheme = ''https'') \<and> authority \<noteq> [] \<and> CHR ''/'' \<notin> set authority"
  let ?p = "CHR ''/'' # takeWhile (\<lambda>c. c \<noteq> CHR ''?'') rest"
  have as: "after_scheme (''://'' @ authority @ CHR ''/'' # rest) = Some ?p"
    using a by (intro after_scheme_form) auto
  from a have "scheme = ''http'' \<or> scheme = ''https''" by simp
  then show "extract_pathname (scheme @ ''://'' @ authority @ CHR ''/'' # rest) = ?p"
  proof
    assume "scheme = ''http''"
    moreover have "strip_prefix ''http'' (''http'' @ ''://'' @ authority @ CHR ''/'' # rest)
                   = Some (''://'' @ authority @ CHR ''/'' # rest)"
      by (rule strip_prefix_append)
    moreover have "strip_prefix ''s'' (''://'' @ authority @ CHR ''/'' # rest) = None"
      by (simp add: strip_prefix_def)
    ultimately show ?thesis using as by (simp add: extract_pathname_def url_match_def)
  next
    assume "scheme = ''https''"
    moreover have "strip_prefix ''http'' (''http'' @ ''s://'' @ authority @ CHR ''/'' # rest)
                   = Some (''s://'' @ authority @ CHR ''/'' # rest)"
      by (rule strip_prefix_append)
    moreover have "strip_prefix ''s'' (''s'' @ ''://'' @ authority @ CHR ''/'' # rest)
                   = Some (''://'' @ authority @ CHR ''/'' # rest)"
      by (rule strip_prefix_append)
    ultimately show ?thesis using as by (simp add: extract_pathname_def url_match_def)
  qed
next
  assume ne: "extract_pathname u \<noteq> []"
  then obtain p where p: "url_match u = Some p"
    by (auto simp: extract_pathname_def split: option.splits)
  then obtain r0 where r0: "strip_prefix ''http'' u = Some r0"
    by (auto simp: url_match_def split: option.splits)
  have u: "u = ''http'' @ r0" using strip_prefix_Some[OF r0] .
  from p r0 consider (s) r1 where "strip_prefix ''s'' r0 = Some r1" "after_scheme r1 = Some p"
    | (plain) "after_scheme r0 = Some p"
    by (auto simp: url_match_def split: option.splits)
  then show "\<exists>scheme authority rest. u = scheme @ ''://'' @ authority @ CHR ''/'' # rest
           \<and> (scheme = ''http'' \<or> scheme = ''https'') \<and> authority \<noteq> []
           \<and> CHR ''/'' \<notin> set authority"
  proof cases
    case s
    from after_scheme_Some[OF s(2)] obtain authority rest where
      "r1 = ''://'' @ authority @ CHR ''/'' # rest" "authority \<noteq> []" "CHR ''/'' \<notin> set authority"
      by blast
    moreover have "r0 = ''s'' @ r1" using strip_prefix_Some[OF s(1)] .
    ultimately have "u = ''https'' @ ''://'' @ authority @ CHR ''/'' # rest \<and> authority \<noteq> []
        \<and> CHR ''/'' \<notin> set authority" using u by simp
    then show ?thesis by blast
  next
    case plain
    from after_scheme_Some[OF plain] obtain authority rest where
      "r0 = ''://'' @ authority @ CHR ''/'' # rest" "authority \<noteq> []" "CHR ''/'' \<notin> set authority"
      by blast
    then have "u = ''http'' @ ''://'' @ authority @ CHR ''/'' # rest \<and> authority \<noteq> []
        \<and> CHR ''/'' \<notin> set authority" using u by simp
    then show ?thesis by blast
  qed
next
  show "handle M rt req s =
        (case match M rt (req_method req) (extract_pathname (url req)) of
           (r, rt') \<Rightarrow> (handleRoute req (deref rt' r) s, rt'))"
    by (simp add: handle_def)
qed

text \<open>
  C8 as stated fails: the fragment of a URL without a query string is part of the
  pathname, and a URL with another scheme gives the empty pathname.
\<close>

theorem fragment_stays_in_pathname:
  "extract_pathname ''http://localhost/a#top'' = ''/a#top''
   \<and> extract_pathname ''ftp://localhost/a'' = []"
  by (simp add: extract_pathname_def url_match_def strip_prefix_def after_scheme_def)

text \<open>A URL with a query string and a fragment behind it.\<close>

theorem extract_pathname_http_witness:
  "extract_pathname (''https'' @ ''://'' @ ''example.com'' @ CHR ''/'' # ''contacts/ada?tab=1#top'')
     = ''/contacts/ada''"
  using extract_pathname_http[of "''https''" "''example.com''" "''contacts/ada?tab=1#top''"]
  by simp

section \<open>Static routes\<close>

lemma register_append:
  "register M (xs @ ys) rt =
     (case register M xs rt of Inl e \<Rightarrow> Inl e | Inr rt' \<Rightarrow> register M ys rt')"
  by (induction xs arbitrary: rt) (auto split: sum.splits)

lemma register1_cache:
  "register1 M reg rt = Inr rt' \<Longrightarrow> cachedRoutes rt' = cachedRoutes rt"
  by (auto simp: register1_def add_def use_def Let_def
      split: registration.splits if_splits option.splits)

lemma register_cache:
  "register M regs rt = Inr rt' \<Longrightarrow> cachedRoutes rt' = cachedRoutes rt"
  by (induction regs arbitrary: rt) (auto split: sum.splits dest: register1_cache)

lemma add_static_result:
  assumes "\<not> isDynamic path" "add M meth path h rt = Inr rt'"
  shows "lookup2 (staticRoutes rt') meth path = Some (staticCount rt)
    \<and> staticObjects rt' (staticCount rt)
        = \<lparr>method = meth, pathname = path, handler = h, middleware = None\<rparr>
    \<and> staticCount rt' = Suc (staticCount rt)"
  using assms by (auto simp: add_def Let_def lookup2_def split: option.splits)

lemma register1_keeps_static:
  assumes "register1 M reg rt = Inr rt'"
    and "\<forall>h'. reg \<noteq> Add meth path h'"
    and "lookup2 (staticRoutes rt) meth path = Some a"
    and "a < staticCount rt"
  shows "lookup2 (staticRoutes rt') meth path = Some a
    \<and> staticObjects rt' a = staticObjects rt a \<and> a < staticCount rt'"
proof (cases reg)
  case (Add m p h')
  then have ne: "m \<noteq> meth \<or> p \<noteq> path" using assms(2) by auto
  show ?thesis
  proof (cases "isDynamic p")
    case True
    then show ?thesis using assms(1,3,4) Add
      by (auto simp: register1_def add_def Let_def lookup2_def split: if_splits)
  next
    case False
    then show ?thesis using assms(1,3,4) Add ne
      by (auto simp: register1_def add_def Let_def lookup2_def split: option.splits if_splits)
  qed
next
  case (Use p mw)
  then show ?thesis using assms(1,3,4)
    by (auto simp: register1_def use_def split: option.splits if_splits)
qed

lemma register_keeps_static:
  assumes "register M regs rt = Inr rt'"
    and "\<forall>h'. Add meth path h' \<notin> set regs"
    and "lookup2 (staticRoutes rt) meth path = Some a"
    and "a < staticCount rt"
  shows "lookup2 (staticRoutes rt') meth path = Some a
    \<and> staticObjects rt' a = staticObjects rt a"
  using assms
proof (induction regs arbitrary: rt)
  case Nil
  then show ?case by simp
next
  case (Cons reg regs)
  from Cons.prems(1) obtain rt1 where r1: "register1 M reg rt = Inr rt1"
    and rest: "register M regs rt1 = Inr rt'"
    by (auto split: sum.splits)
  have "\<forall>h'. reg \<noteq> Add meth path h'" using Cons.prems(2) by auto
  from register1_keeps_static[OF r1 this Cons.prems(3,4)]
  have k: "lookup2 (staticRoutes rt1) meth path = Some a"
    "staticObjects rt1 a = staticObjects rt a" "a < staticCount rt1" by auto
  have "\<forall>h'. Add meth path h' \<notin> set regs" using Cons.prems(2) by auto
  from Cons.IH[OF rest this k(1) k(3)] k(2) show ?case by simp
qed

text \<open>
  C7. Let a static template (no star, no slash followed by a colon) be registered with
  \<open>add\<close> for a method, after any registrations and before any registrations other
  than one of the same method and template, on a router that has nothing cached for that
  method and path. Then \<open>match\<close> with the method and the template as path selects
  the route of that registration: its handler is the registered one (the last one
  registered for the template), whatever else has been registered.
\<close>

theorem static_route_selected:
  assumes static: "\<not> isDynamic path"
    and uncached: "lookup2 (cachedRoutes rt0) meth path = None"
    and regs: "register M (before @ [Add meth path h] @ later) rt0 = Inr rt"
    and last: "\<forall>h'. Add meth path h' \<notin> set later"
  shows "\<exists>a rt'. match M rt meth path = (StaticRef a, rt')
    \<and> route_handler (deref rt' (StaticRef a)) = h
    \<and> method (staticObjects rt' a) = meth \<and> pathname (staticObjects rt' a) = path
    \<and> route_middleware (deref rt' (StaticRef a)) = Some (collect M path (middlewares rt))
    \<and> route_params (deref rt' (StaticRef a)) = Map.empty"
proof -
  from regs obtain rt1 rt2 where b: "register M before rt0 = Inr rt1"
    and a: "add M meth path h rt1 = Inr rt2"
    and l: "register M later rt2 = Inr rt"
    by (auto simp: register_append register1_def split: sum.splits)
  let ?a = "staticCount rt1"
  from add_static_result[OF static a]
  have t: "lookup2 (staticRoutes rt2) meth path = Some ?a"
    and o: "staticObjects rt2 ?a = \<lparr>method = meth, pathname = path, handler = h, middleware = None\<rparr>"
    and c: "?a < staticCount rt2" by auto
  from register_keeps_static[OF l last t c] o
  have t': "lookup2 (staticRoutes rt) meth path = Some ?a"
    and o': "staticObjects rt ?a = \<lparr>method = meth, pathname = path, handler = h, middleware = None\<rparr>"
    by auto
  have "cachedRoutes rt = cachedRoutes rt0"
    using regs by (rule register_cache)
  then have miss: "lookup2 (cachedRoutes rt) meth path = None"
    using uncached by (simp add: lookup2_def)
  show ?thesis using miss t' o'
    by (simp add: match_def Let_def deref_def route_handler_def route_middleware_def
        route_params_def)
qed

text \<open>
  \<open>GET /about\<close> is registered twice, among a dynamic route, a route of another
  method, a middleware and a route of another template: the second handler is selected.
\<close>

theorem static_route_selected_witness:
  "\<not> isDynamic ''/about''
   \<and> lookup2 (cachedRoutes new_router) ''GET'' ''/about'' = None
   \<and> (\<exists>rt. register segment_matcher
          ([Add ''GET'' ''/about'' contact, Add ''GET'' ''/contacts/:name'' contact]
           @ [Add ''GET'' ''/about'' marking]
           @ [Add ''POST'' ''/about'' contact, Use ''/about'' blocker, Add ''GET'' ''/x'' contact])
          new_router = Inr rt
        \<and> (\<exists>a rt'. match segment_matcher rt ''GET'' ''/about'' = (StaticRef a, rt')
              \<and> route_handler (deref rt' (StaticRef a)) = marking))"
proof -
  have s: "\<not> isDynamic ''/about''" by (simp add: isDynamic_def)
  have u: "lookup2 (cachedRoutes new_router) ''GET'' ''/about'' = None"
    by (simp add: lookup2_def new_router_def)
  obtain rt where r: "register segment_matcher
          ([Add ''GET'' ''/about'' contact, Add ''GET'' ''/contacts/:name'' contact]
           @ [Add ''GET'' ''/about'' marking]
           @ [Add ''POST'' ''/about'' contact, Use ''/about'' blocker, Add ''GET'' ''/x'' contact])
          new_router = Inr rt"
    by (simp add: registration_defs)
  have l: "\<forall>h'. Add ''GET'' ''/about'' h'
      \<notin> set [Add ''POST'' ''/about'' contact, Use ''/about'' blocker, Add ''GET'' ''/x'' contact]"
    by simp
  from static_route_selected[OF s u r l] s u r show ?thesis by blast
qed

section \<open>The log of a chain execution\<close>

lemma compose_next_preserves:
  assumes upd: "\<And>s name v. P s \<Longrightarrow> P (s\<lparr>ctx := (ctx s)(name \<mapsto> v)\<rparr>)"
    and idx: "\<And>s i. P s \<Longrightarrow> index s < int i \<Longrightarrow> P (s\<lparr>index := int i\<rparr>)"
    and enter: "\<And>s i. P s \<Longrightarrow> index s < int i \<Longrightarrow> lo \<le> i \<Longrightarrow> i < hi \<Longrightarrow>
       P (s\<lparr>index := int i, ctx := (ctx s)(''next'' \<mapsto> VNext (BoundNext (i + 1))),
            trace := trace s @ [EnterMiddleware i ((ctx s)(''next'' \<mapsto> VNext (BoundNext (i + 1))))]\<rparr>)"
  shows "P s \<Longrightarrow> lo \<le> b \<Longrightarrow> b + length ms \<le> hi \<Longrightarrow> P (snd (compose_next ms b req i s))"
proof (induction ms arbitrary: b i s)
  case Nil
  then show ?case by (auto intro: idx)
next
  case (Cons fn rest)
  show ?case
  proof (cases "int i \<le> index s")
    case True
    then show ?thesis using Cons.prems by simp
  next
    case False
    then have lt: "index s < int i" by simp
    show ?thesis
    proof (cases "i = b")
      case True
      let ?c = "(ctx s)(''next'' \<mapsto> VNext (BoundNext (i + 1)))"
      let ?s0 = "s\<lparr>index := int i, ctx := ?c, trace := trace s @ [EnterMiddleware i ?c]\<rparr>"
      have "P ?s0" using Cons.prems True by (intro enter[OF _ lt]) auto
      then have "P (snd (run_action
              (\<lambda>cap. case cap of BoundNext j \<Rightarrow> compose_next rest (Suc b) req j
                 | OuterNext \<Rightarrow> (\<lambda>s'. (Inl OuterNextReentered, s')))
              (fn req) ?s0))"
      proof (rule run_action_preserves[rotated 2])
        fix c and s' :: execution assume "P s'"
        then show "P (snd ((case c of BoundNext j \<Rightarrow> compose_next rest (Suc b) req j
                 | OuterNext \<Rightarrow> (\<lambda>s'. (Inl OuterNextReentered, s'))) s'))"
          using Cons.prems(2,3) by (cases c) (auto intro!: Cons.IH)
      qed (rule upd)
      then show ?thesis using False True by (simp add: Let_def)
    next
      case other: False
      have "P (snd (compose_next rest (Suc b) req i s))"
        using Cons.prems by (intro Cons.IH) auto
      then show ?thesis using False other by simp
    qed
  qed
qed

lemma run_reply_trace: "trace (snd (run_reply a s)) = trace s"
  by (rule run_reply_preserves[where P="\<lambda>x. trace x = trace s"]) simp_all

lemma handleRoute_Some:
  "route_middleware route = Some coll \<Longrightarrow>
   handleRoute req route s =
     (case composeMiddleware coll req (s\<lparr>ctx := assign_next_params (ctx s) (route_params route)\<rparr>) of
        (Inl e, s1) \<Rightarrow> (Inl e, s1)
      | (Inr response, s1) \<Rightarrow>
          run_reply (route_handler route req)
            (s1\<lparr>ctx := (ctx s1)(''params'' \<mapsto> VParams (route_params route)),
                trace := trace s1
                  @ [EnterHandler ((ctx s1)(''params'' \<mapsto> VParams (route_params route)))]\<rparr>))"
  by (simp add: handleRoute_def Let_def)

lemma map_filter_entered_snoc:
  "List.map_filter entered (es @ [EnterMiddleware i c]) = List.map_filter entered es @ [i]"
  by (simp add: List.map_filter_def)

lemma composeMiddleware_log:
  "\<exists>es. trace (snd (composeMiddleware coll req s)) = trace s @ es \<and> middleware_log (length coll) es"
proof -
  let ?P = "\<lambda>x. \<exists>es. trace x = trace s @ es \<and> middleware_log (length coll) es
                \<and> (\<forall>i\<in>set (List.map_filter entered es). int i \<le> index x)"
  have "?P (snd (compose_next coll 0 req 0 (s\<lparr>index := - 1\<rparr>)))"
  proof (rule compose_next_preserves[where P="?P" and lo=0 and hi="length coll"])
    show "?P (s\<lparr>index := - 1\<rparr>)" by (simp add: middleware_log_def List.map_filter_def)
  next
    fix x :: execution and i assume "?P x" "index x < int i"
    then show "?P (x\<lparr>index := int i\<rparr>)" by fastforce
  next
    fix x :: execution and i assume p: "?P x" and lt: "index x < int i" and "0 \<le> i" and n: "i < length coll"
    from p obtain es where es: "trace x = trace s @ es" "middleware_log (length coll) es"
      "\<forall>i\<in>set (List.map_filter entered es). int i \<le> index x" by blast
    let ?c = "(ctx x)(''next'' \<mapsto> VNext (BoundNext (i + 1)))"
    have "sorted_wrt (<) (List.map_filter entered es @ [i])"
      using es(2,3) lt by (auto simp: middleware_log_def sorted_wrt_append)
    then have "middleware_log (length coll) (es @ [EnterMiddleware i ?c])"
      using es(2) n by (auto simp: middleware_log_def map_filter_entered_snoc)
    moreover have "\<forall>j\<in>set (List.map_filter entered (es @ [EnterMiddleware i ?c])). int j \<le> int i"
      using es(3) lt by (auto simp: map_filter_entered_snoc)
    ultimately show "?P (x\<lparr>index := int i, ctx := ?c, trace := trace x @ [EnterMiddleware i ?c]\<rparr>)"
      using es(1) by auto
  qed simp_all
  then show ?thesis by (auto simp: composeMiddleware_def)
qed

lemma handleRoute_log:
  assumes "route_middleware route = Some coll"
  shows "\<exists>es hs. trace (snd (handleRoute req route s)) = trace s @ es @ hs
     \<and> middleware_log (length coll) es
     \<and> ((hs = [] \<and> (\<exists>e. fst (handleRoute req route s) = Inl e))
        \<or> (\<exists>c. hs = [EnterHandler c] \<and> c ''params'' = Some (VParams (route_params route))))"
proof -
  let ?s0 = "s\<lparr>ctx := assign_next_params (ctx s) (route_params route)\<rparr>"
  obtain r s1 where c: "composeMiddleware coll req ?s0 = (r, s1)"
    by (cases "composeMiddleware coll req ?s0")
  from composeMiddleware_log[of coll req ?s0] c
  obtain es where es: "trace s1 = trace s @ es" "middleware_log (length coll) es" by auto
  show ?thesis
  proof (cases r)
    case (Inl e)
    then have "handleRoute req route s = (Inl e, s1)"
      using c assms by (simp add: handleRoute_Some)
    then show ?thesis using es by auto
  next
    case (Inr x)
    let ?c = "(ctx s1)(''params'' \<mapsto> VParams (route_params route))"
    have "handleRoute req route s =
        run_reply (route_handler route req) (s1\<lparr>ctx := ?c, trace := trace s1 @ [EnterHandler ?c]\<rparr>)"
      using c assms Inr by (simp add: handleRoute_Some)
    then have "trace (snd (handleRoute req route s)) = trace s @ es @ [EnterHandler ?c]"
      using es(1) by (simp add: run_reply_trace)
    moreover have "?c ''params'' = Some (VParams (route_params route))" by simp
    ultimately show ?thesis using es(2) by blast
  qed
qed

text \<open>
  A handler that passes on reaches its call of \<open>next\<close> with the function the
  chain has bound for it, so the handler behind it is entered; once the last handler has
  been passed, no call of a \<open>next\<close> function enters a handler again.
\<close>

lemma run_action_calls_next:
  assumes first: "\<And>s'. Q s' \<Longrightarrow> R (snd (call cap s'))"
    and later: "\<And>c s'. R s' \<Longrightarrow> R (snd (call c s'))"
    and updQ: "\<And>s' name v. Q s' \<Longrightarrow> Q (s'\<lparr>ctx := (ctx s')(name \<mapsto> v)\<rparr>)"
    and updR: "\<And>s' name v. R s' \<Longrightarrow> R (s'\<lparr>ctx := (ctx s')(name \<mapsto> v)\<rparr>)"
  shows "calls_next a \<Longrightarrow> ctx s ''next'' = Some (VNext cap) \<Longrightarrow> Q s
         \<Longrightarrow> R (snd (run_action call a s))"
proof (induction a arbitrary: s)
  case (CallNext k)
  obtain r s' where rs: "call cap s = (r, s')" by (cases "call cap s")
  have "R s'" using first[OF CallNext.prems(3)] rs by simp
  then have "R (snd (run_action call (k r) s'))"
    by (rule run_action_preserves[where P=R, rotated 2]) (auto intro: later updR)
  then show ?case using CallNext.prems(2) rs by simp
next
  case (ReadCtx k)
  then show ?case using ReadCtx.IH[OF rangeI] by simp
next
  case (SetProp name v a)
  have "R (snd (run_action call a (s\<lparr>ctx := (ctx s)(name \<mapsto> v)\<rparr>)))"
    using SetProp.prems by (intro SetProp.IH updQ) auto
  then show ?case by simp
qed simp_all

lemma compose_next_exhausted:
  "int (b + length ms) \<le> index s \<Longrightarrow> trace (snd (compose_next ms b req i s)) = trace s"
proof (induction ms arbitrary: b)
  case Nil
  then show ?case by simp
next
  case (Cons fn rest)
  then show ?case by (cases "int i \<le> index s") auto
qed

lemma compose_next_all_entered:
  assumes "\<forall>fn\<in>set ms. calls_next (fn req)"
  shows "index s < int b \<Longrightarrow>
    (\<exists>es. trace (snd (compose_next ms b req b s)) = trace s @ es
        \<and> map entered es = map Some [b..<b + length ms])
    \<and> int (b + length ms) \<le> index (snd (compose_next ms b req b s))"
  using assms
proof (induction ms arbitrary: b s)
  case Nil
  then show ?case by simp
next
  case (Cons fn rest)
  let ?c = "(ctx s)(''next'' \<mapsto> VNext (BoundNext (b + 1)))"
  let ?s0 = "s\<lparr>index := int b, ctx := ?c, trace := trace s @ [EnterMiddleware b ?c]\<rparr>"
  let ?call = "\<lambda>cap. case cap of BoundNext j \<Rightarrow> compose_next rest (Suc b) req j
                 | OuterNext \<Rightarrow> (\<lambda>s'. (Inl OuterNextReentered, s'))"
  let ?Q = "\<lambda>x. trace x = trace ?s0 \<and> index x = int b"
  let ?R = "\<lambda>x. (\<exists>es. trace x = trace ?s0 @ es
                    \<and> map entered es = map Some [Suc b..<Suc b + length rest])
                \<and> int (Suc b + length rest) \<le> index x"
  have rest: "\<forall>fn\<in>set rest. calls_next (fn req)" and fn: "calls_next (fn req)"
    using Cons.prems(2) by auto
  have "?R (snd (run_action ?call (fn req) ?s0))"
  proof (rule run_action_calls_next[where Q="?Q" and R="?R" and cap="BoundNext (b + 1)"])
    fix x :: execution assume q: "?Q x"
    then have "index x < int (Suc b)" by simp
    from Cons.IH[OF this rest] q
    show "?R (snd (?call (BoundNext (b + 1)) x))" by simp
  next
    fix c and x :: execution assume r: "?R x"
    show "?R (snd (?call c x))"
    proof (cases c)
      case OuterNext
      then show ?thesis using r by simp
    next
      case (BoundNext j)
      have "trace (snd (compose_next rest (Suc b) req j x)) = trace x"
        using r by (intro compose_next_exhausted) simp
      moreover have "int (Suc b + length rest) \<le> index (snd (compose_next rest (Suc b) req j x))"
        using r by (intro compose_next_index_ge) simp
      ultimately show ?thesis using r BoundNext by simp
    qed
  qed (use fn in simp_all)
  then obtain es where es: "trace (snd (run_action ?call (fn req) ?s0)) = trace ?s0 @ es"
      "map entered es = map Some [Suc b..<Suc b + length rest]"
    and ix: "int (Suc b + length rest) \<le> index (snd (run_action ?call (fn req) ?s0))"
    by blast
  have eq: "compose_next (fn # rest) b req b s = run_action ?call (fn req) ?s0"
    using Cons.prems(1) by (simp add: Let_def)
  have "trace (snd (compose_next (fn # rest) b req b s)) = trace s @ (EnterMiddleware b ?c # es)"
    using es(1) eq by simp
  moreover have "map entered (EnterMiddleware b ?c # es) = map Some [b..<b + length (fn # rest)]"
    using es(2) by (simp add: upt_conv_Cons del: upt_Suc)
  ultimately show ?case using ix eq by (metis add_Suc_right add_Suc length_Cons)
qed

lemma compose_next_extends:
  "\<exists>es. trace (snd (compose_next ms b req i s)) = trace s @ es"
proof -
  have "(\<exists>es. trace (snd (compose_next ms b req i s)) = trace s @ es)"
    by (rule compose_next_preserves[where P="\<lambda>x. \<exists>es. trace x = trace s @ es"
          and lo=b and hi="b + length ms"]) auto
  then show ?thesis .
qed

lemma composeMiddleware_first:
  "\<exists>c es'. trace (snd (composeMiddleware (fn # rest) req s)) = trace s @ EnterMiddleware 0 c # es'"
proof -
  let ?c = "(ctx s)(''next'' \<mapsto> VNext (BoundNext 1))"
  let ?s0 = "s\<lparr>index := 0, ctx := ?c, trace := trace s @ [EnterMiddleware 0 ?c]\<rparr>"
  let ?call = "\<lambda>cap. case cap of BoundNext j \<Rightarrow> compose_next rest (Suc 0) req j
                 | OuterNext \<Rightarrow> (\<lambda>s'. (Inl OuterNextReentered, s'))"
  let ?P = "\<lambda>x. \<exists>es. trace x = trace ?s0 @ es"
  have eq: "composeMiddleware (fn # rest) req s = run_action ?call (fn req) ?s0"
    by (simp add: composeMiddleware_def Let_def)
  have "?P ?s0" by simp
  then have "?P (snd (run_action ?call (fn req) ?s0))"
  proof (rule run_action_preserves[rotated 2])
    fix c and x :: execution assume p: "?P x"
    then obtain es where es: "trace x = trace ?s0 @ es" by blast
    show "?P (snd (?call c x))"
    proof (cases c)
      case OuterNext
      then show ?thesis using p by simp
    next
      case (BoundNext j)
      obtain es2 where "trace (snd (compose_next rest (Suc 0) req j x)) = trace x @ es2"
        using compose_next_extends by blast
      then have "trace (snd (?call c x)) = trace ?s0 @ (es @ es2)" using es BoundNext by simp
      then show ?thesis by blast
    qed
  qed simp
  then obtain es where "trace (snd (composeMiddleware (fn # rest) req s))
        = trace s @ EnterMiddleware 0 ?c # es"
    using eq by auto
  then show ?thesis by blast
qed

lemma composeMiddleware_all_entered:
  assumes "\<forall>fn\<in>set coll. calls_next (fn req)"
  shows "\<exists>es. trace (snd (composeMiddleware coll req s)) = trace s @ es
      \<and> map entered es = map Some [0..<length coll]"
proof -
  have "index (s\<lparr>index := - 1\<rparr>) < int 0" by simp
  from compose_next_all_entered[OF assms this]
  show ?thesis by (simp add: composeMiddleware_def)
qed

lemma handleRoute_entries:
  assumes mw: "route_middleware route = Some coll"
  shows "\<exists>es hs. trace (snd (handleRoute req route s)) = trace s @ es @ hs
     \<and> middleware_log (length coll) es
     \<and> (coll \<noteq> [] \<longrightarrow> (\<exists>c es'. es = EnterMiddleware 0 c # es'))
     \<and> (hs = [] \<or> (\<exists>c. hs = [EnterHandler c]))
     \<and> ((\<forall>fn\<in>set coll. calls_next (fn req)) \<longrightarrow>
            map entered es = map Some [0..<length coll]
            \<and> (hs = [] \<longrightarrow> (\<exists>e. fst (handleRoute req route s) = Inl e)))"
proof -
  let ?s0 = "s\<lparr>ctx := assign_next_params (ctx s) (route_params route)\<rparr>"
  obtain r s1 where c: "composeMiddleware coll req ?s0 = (r, s1)"
    by (cases "composeMiddleware coll req ?s0")
  from composeMiddleware_log[of coll req ?s0] c
  obtain es where es: "trace s1 = trace s @ es" "middleware_log (length coll) es" by auto
  have first: "coll \<noteq> [] \<longrightarrow> (\<exists>c es'. es = EnterMiddleware 0 c # es')"
  proof
    assume "coll \<noteq> []"
    then obtain fn rest where "coll = fn # rest" by (cases coll) auto
    with composeMiddleware_first[of fn rest req ?s0] c es(1)
    show "\<exists>c es'. es = EnterMiddleware 0 c # es'" by auto
  qed
  have all: "map entered es = map Some [0..<length coll]"
    if "\<forall>fn\<in>set coll. calls_next (fn req)"
    using composeMiddleware_all_entered[OF that, of ?s0] c es(1) by auto
  show ?thesis
  proof (cases r)
    case (Inl e)
    then have h: "handleRoute req route s = (Inl e, s1)"
      using c mw by (simp add: handleRoute_Some)
    have 1: "trace (snd (handleRoute req route s)) = trace s @ es @ []"
      using h es(1) by simp
    have 2: "\<exists>e. fst (handleRoute req route s) = Inl e" using h by simp
    show ?thesis
      by (rule exI[of _ es], rule exI[of _ "[]"]) (use 1 2 es(2) first all in simp)
  next
    case (Inr x)
    let ?c = "(ctx s1)(''params'' \<mapsto> VParams (route_params route))"
    have "handleRoute req route s =
        run_reply (route_handler route req) (s1\<lparr>ctx := ?c, trace := trace s1 @ [EnterHandler ?c]\<rparr>)"
      using c mw Inr by (simp add: handleRoute_Some)
    then have 1: "trace (snd (handleRoute req route s)) = trace s @ es @ [EnterHandler ?c]"
      using es(1) by (simp add: run_reply_trace)
    show ?thesis
      by (rule exI[of _ es], rule exI[of _ "[EnterHandler ?c]"]) (use 1 es(2) first all in simp)
  qed
qed

section \<open>Middleware selection and dynamic routes\<close>

lemma collect_concat:
  "collect M path mws = concat (map snd (filter (\<lambda>e. test M (fst e) path) mws))"
  by (induction mws) auto

lemma match_miss_middleware:
  assumes "lookup2 (cachedRoutes rt) meth path = None"
    and "match M rt meth path = (r, rt')"
  shows "route_middleware (deref rt' r) = Some (collect M path (middlewares rt))"
  using assms
  by (auto simp: match_def Let_def deref_def route_middleware_def split: option.splits)

lemma use_existing_shape:
  "use_existing M tpl h ms = Some ms' \<Longrightarrow>
   \<exists>pre p hs post. ms = pre @ (p, hs) # post \<and> ms' = pre @ (p, hs @ [h]) # post"
proof (induction ms arbitrary: ms')
  case Nil
  then show ?case by simp
next
  case (Cons e es)
  show ?case
  proof (cases "pathname_of M (fst e) = tpl")
    case True
    then have "ms' = (fst e, snd e @ [h]) # es" using Cons.prems by simp
    then have "e # es = [] @ (fst e, snd e) # es \<and> ms' = [] @ (fst e, snd e @ [h]) # es" by simp
    then show ?thesis by blast
  next
    case False
    then obtain es' where es': "use_existing M tpl h es = Some es'" "ms' = e # es'"
      using Cons.prems by auto
    from Cons.IH[OF es'(1)] obtain pre p hs post where
      "es = pre @ (p, hs) # post" "es' = pre @ (p, hs @ [h]) # post" by blast
    then have "e # es = (e # pre) @ (p, hs) # post \<and> ms' = (e # pre) @ (p, hs @ [h]) # post"
      using es'(2) by simp
    then show ?thesis by blast
  qed
qed

text \<open>
  C6, as amended. On every resolution (a call of \<open>match\<close> that misses the cache)
  the middleware attached to the route, static, dynamic or not found, is the
  concatenation, in the order of the middleware table, of the handlers of every entry
  whose pattern matches the path; no such entry is left out and the handlers of one entry
  stay in the order in which \<open>use\<close> appended them (\<open>use\<close> puts a handler at the
  end of the entry of its template, or in a new last entry). In a dispatch the log of the
  chain execution is made of entries of selected middleware, at strictly increasing
  positions of the selected list and starting with the first selected handler whenever
  there is one, followed by at most one entry of the route's handler, which comes last.
  When every selected handler passes on, every one of them is entered, in the order of
  the selected list, and the route's handler is entered after them unless the dispatch
  has failed. Handlers await the calls of \<open>next\<close> they make.
\<close>

theorem middleware_before_handler:
  "collect M path mws = concat (map snd (filter (\<lambda>e. test M (fst e) path) mws))
   \<and> (lookup2 (cachedRoutes rt) meth path = None \<longrightarrow>
        (case match M rt meth path of
           (r, rt') \<Rightarrow> route_middleware (deref rt' r) = Some (collect M path (middlewares rt))))
   \<and> (use M tpl h rt = Inr rt2 \<longrightarrow>
        (\<exists>pre p hs post. middlewares rt = pre @ (p, hs) # post
            \<and> middlewares rt2 = pre @ (p, hs @ [h]) # post)
        \<or> middlewares rt2 = middlewares rt @ [(tpl, [h])])
   \<and> (route_middleware route = Some coll \<longrightarrow>
        (\<exists>es hs. trace (snd (handleRoute req route s)) = trace s @ es @ hs
           \<and> middleware_log (length coll) es
           \<and> (coll \<noteq> [] \<longrightarrow> (\<exists>c es'. es = EnterMiddleware 0 c # es'))
           \<and> (hs = [] \<or> (\<exists>c. hs = [EnterHandler c]))
           \<and> ((\<forall>fn\<in>set coll. calls_next (fn req)) \<longrightarrow>
                  map entered es = map Some [0..<length coll]
                  \<and> (hs = [] \<longrightarrow> (\<exists>e. fst (handleRoute req route s) = Inl e)))))"
proof (intro conjI impI)
  show "collect M path mws = concat (map snd (filter (\<lambda>e. test M (fst e) path) mws))"
    by (rule collect_concat)
next
  assume "lookup2 (cachedRoutes rt) meth path = None"
  then show "case match M rt meth path of
           (r, rt') \<Rightarrow> route_middleware (deref rt' r) = Some (collect M path (middlewares rt))"
    using match_miss_middleware[of rt meth path M] by (cases "match M rt meth path") simp
next
  assume u: "use M tpl h rt = Inr rt2"
  show "(\<exists>pre p hs post. middlewares rt = pre @ (p, hs) # post
            \<and> middlewares rt2 = pre @ (p, hs @ [h]) # post)
        \<or> middlewares rt2 = middlewares rt @ [(tpl, [h])]"
  proof (cases "use_existing M tpl h (middlewares rt)")
    case None
    then show ?thesis using u by (auto simp: use_def split: if_splits)
  next
    case (Some ms')
    then have "middlewares rt2 = ms'" using u by (auto simp: use_def)
    then show ?thesis using use_existing_shape[OF Some] by blast
  qed
next
  assume "route_middleware route = Some coll"
  then show "\<exists>es hs. trace (snd (handleRoute req route s)) = trace s @ es @ hs
           \<and> middleware_log (length coll) es
           \<and> (coll \<noteq> [] \<longrightarrow> (\<exists>c es'. es = EnterMiddleware 0 c # es'))
           \<and> (hs = [] \<or> (\<exists>c. hs = [EnterHandler c]))
           \<and> ((\<forall>fn\<in>set coll. calls_next (fn req)) \<longrightarrow>
                  map entered es = map Some [0..<length coll]
                  \<and> (hs = [] \<longrightarrow> (\<exists>e. fst (handleRoute req route s) = Inl e)))"
    by (rule handleRoute_entries)
qed

text \<open>
  C6 as stated fails: a selected handler behind one that answers without calling
  \<open>next\<close> is not run. Two handlers are selected for \<open>/x\<close>; the log of the
  dispatch has the first of them and the route's handler, and no entry of the second.
\<close>

theorem selected_middleware_not_run:
  "case register segment_matcher
       [Use ''/x'' blocker, Use ''/x'' (tagger ''b''), Add ''GET'' ''/x'' marking] new_router of
     Inl e \<Rightarrow> False
   | Inr rt \<Rightarrow>
       collect segment_matcher ''/x'' (middlewares rt) = [blocker, tagger ''b'']
       \<and> map entered (trace (snd (fst (handle segment_matcher rt
                \<lparr>req_method = ''GET'', url = ''http://localhost/x''\<rparr> fresh))))
           = [Some 0, None]"
  by (simp add: registration_defs dispatch_defs blocker_def tagger_def marking_def)

text \<open>
  Two handlers under one template and one under another: the path selects the first two,
  in the order of their registration; both pass on, and both run before the route's
  handler.
\<close>

theorem middleware_before_handler_witness:
  "(\<exists>rt. register segment_matcher
       [Use ''/x'' (tagger ''a''), Use ''/y'' blocker, Use ''/x'' (tagger ''b''),
        Add ''GET'' ''/x'' marking] new_router = Inr rt
      \<and> middlewares rt = [(''/x'', [tagger ''a'', tagger ''b'']), (''/y'', [blocker])]
      \<and> collect segment_matcher ''/x'' (middlewares rt) = [tagger ''a'', tagger ''b'']
      \<and> lookup2 (cachedRoutes rt) ''GET'' ''/x'' = None
      \<and> (case match segment_matcher rt ''GET'' ''/x'' of
            (r, rt') \<Rightarrow> route_middleware (deref rt' r) = Some [tagger ''a'', tagger ''b'']
              \<and> calls_next (tagger ''a'' \<lparr>req_method = ''GET'', url = ''http://localhost/x''\<rparr>)
              \<and> calls_next (tagger ''b'' \<lparr>req_method = ''GET'', url = ''http://localhost/x''\<rparr>)
              \<and> (\<exists>es hs. trace (snd (handleRoute
                     \<lparr>req_method = ''GET'', url = ''http://localhost/x''\<rparr> (deref rt' r) fresh))
                       = es @ hs
                    \<and> map entered es = [Some 0, Some 1]
                    \<and> (hs = [] \<or> (\<exists>c. hs = [EnterHandler c]))))
      \<and> (case handle segment_matcher rt
                  \<lparr>req_method = ''GET'', url = ''http://localhost/x''\<rparr> fresh of
            ((res, s), rt') \<Rightarrow> map entered (trace s) = [Some 0, Some 1, None]))"
proof -
  let ?req = "\<lparr>req_method = ''GET'', url = ''http://localhost/x''\<rparr>"
  obtain rt where rt: "register segment_matcher
       [Use ''/x'' (tagger ''a''), Use ''/y'' blocker, Use ''/x'' (tagger ''b''),
        Add ''GET'' ''/x'' marking] new_router = Inr rt"
    by (simp add: registration_defs)
  have ms: "middlewares rt = [(''/x'', [tagger ''a'', tagger ''b'']), (''/y'', [blocker])]"
    and miss: "lookup2 (cachedRoutes rt) ''GET'' ''/x'' = None"
    using rt by (auto simp: registration_defs lookup2_def)
  have coll: "collect segment_matcher ''/x'' (middlewares rt) = [tagger ''a'', tagger ''b'']"
    by (simp add: ms test_def segment_matcher_def)
  have run: "case handle segment_matcher rt ?req fresh of
            ((res, s), rt') \<Rightarrow> map entered (trace s) = [Some 0, Some 1, None]"
    using rt by (auto simp: registration_defs dispatch_defs tagger_def marking_def)
  have ca: "calls_next (tagger ''a'' ?req)" and cb: "calls_next (tagger ''b'' ?req)"
    by (simp_all add: tagger_def)
  obtain r rt' where m: "match segment_matcher rt ''GET'' ''/x'' = (r, rt')"
    by (cases "match segment_matcher rt ''GET'' ''/x''")
  note inst = middleware_before_handler[of segment_matcher "''/x''" "middlewares rt" rt
      "''GET''" "''/x''" "tagger ''a''" rt "deref rt' r" "[tagger ''a'', tagger ''b'']" ?req fresh]
  have mw: "route_middleware (deref rt' r) = Some [tagger ''a'', tagger ''b'']"
    using conjunct1[OF conjunct2[OF inst]] miss m coll by simp
  from mp[OF conjunct2[OF conjunct2[OF conjunct2[OF inst]]] mw]
  obtain es hs where log: "trace (snd (handleRoute ?req (deref rt' r) fresh)) = trace fresh @ es @ hs"
      "hs = [] \<or> (\<exists>c. hs = [EnterHandler c])"
      "(\<forall>fn\<in>set [tagger ''a'', tagger ''b'']. calls_next (fn ?req)) \<longrightarrow>
          map entered es = map Some [0..<length [tagger ''a'', tagger ''b'']]
          \<and> (hs = [] \<longrightarrow> (\<exists>e. fst (handleRoute ?req (deref rt' r) fresh) = Inl e))"
    by blast
  have "map entered es = [Some 0, Some 1]"
    using log(3) ca cb by (simp add: upt_conv_Cons)
  then have ex: "\<exists>es hs. trace (snd (handleRoute ?req (deref rt' r) fresh)) = es @ hs
                    \<and> map entered es = [Some 0, Some 1]
                    \<and> (hs = [] \<or> (\<exists>c. hs = [EnterHandler c]))"
    using log(1,2) by (intro exI[of _ es] exI[of _ hs]) (simp add: fresh_def)
  have mres: "case match segment_matcher rt ''GET'' ''/x'' of
            (r, rt') \<Rightarrow> route_middleware (deref rt' r) = Some [tagger ''a'', tagger ''b'']
              \<and> calls_next (tagger ''a'' ?req) \<and> calls_next (tagger ''b'' ?req)
              \<and> (\<exists>es hs. trace (snd (handleRoute ?req (deref rt' r) fresh)) = es @ hs
                    \<and> map entered es = [Some 0, Some 1]
                    \<and> (hs = [] \<or> (\<exists>c. hs = [EnterHandler c])))"
    unfolding m using mw ca cb ex by simp
  show ?thesis
    by (intro exI[of _ rt] conjI) (fact rt ms coll miss mres run)+
qed

lemma scan_none: "scan M objs path as = None \<longleftrightarrow> (\<forall>a\<in>set as. exec M (pattern (objs a)) path = None)"
  by (induction as) (auto split: option.splits)

lemma scan_skip:
  "\<forall>b\<in>set xs. exec M (pattern (objs b)) path = None \<Longrightarrow>
   scan M objs path (xs @ ys) = scan M objs path ys"
  by (induction xs) auto

text \<open>
  C5, as amended. Let nothing be cached and no static route be registered for a method
  and a path, and let a dynamic route of the method match the path while no route
  registered after it for that method does. Then \<open>match\<close> resolves to that route and
  stores the captures of its pattern in it; in the dispatch the route's handler is
  entered at most once, after the middleware, with a context whose \<open>params\<close> are those
  captures, and it is not entered only when the composed middleware has failed. The
  scenario of the README: after \<open>get("/contacts/:name", ...)\<close> the request
  \<open>GET http://localhost/contacts/ada\<close> is answered with \<open>Contact: ada\<close>.
\<close>

theorem dynamic_route_params:
  assumes miss: "lookup2 (cachedRoutes rt) meth path = None"
    and nostatic: "lookup2 (staticRoutes rt) meth path = None"
    and routes: "dynamicRoutes rt meth = Some (earlier @ a # later)"
    and hit: "exec M (pattern (dynamicObjects rt a)) path = Some groups"
    and last: "\<forall>b\<in>set later. exec M (pattern (dynamicObjects rt b)) path = None"
  shows "(\<exists>rt'. match M rt meth path = (DynamicRef a, rt')
      \<and> route_params (deref rt' (DynamicRef a)) = groups
      \<and> route_handler (deref rt' (DynamicRef a)) = handler (dynamicObjects rt a)
      \<and> (\<forall>req s. \<exists>es hs.
            trace (snd (handleRoute req (deref rt' (DynamicRef a)) s)) = trace s @ es @ hs
            \<and> (\<forall>e\<in>set es. entered e \<noteq> None)
            \<and> ((hs = [] \<and> (\<exists>e. fst (handleRoute req (deref rt' (DynamicRef a)) s) = Inl e))
               \<or> (\<exists>c. hs = [EnterHandler c] \<and> c ''params'' = Some (VParams groups)))))
    \<and> (case get segment_matcher ''/contacts/:name'' contact new_router of
          Inl e \<Rightarrow> False
        | Inr rt0 \<Rightarrow>
            fst (fst (handle segment_matcher rt0
              \<lparr>req_method = ''GET'', url = ''http://localhost/contacts/ada''\<rparr> fresh))
            = Inr \<lparr>status = 200, body = ''Contact: ada''\<rparr>)"
proof
  have "scan M (dynamicObjects rt) path (rev (earlier @ a # later))
        = scan M (dynamicObjects rt) path (a # rev earlier)"
    using last scan_skip[of "rev later" M "dynamicObjects rt" path "a # rev earlier"] by simp
  then have sc: "scan M (dynamicObjects rt) path (rev (earlier @ a # later)) = Some (a, groups)"
    using hit by simp
  let ?coll = "collect M path (middlewares rt)"
  let ?rt' = "rt\<lparr>dynamicObjects := (dynamicObjects rt)
                 (a := (dynamicObjects rt a)\<lparr>middleware := Some ?coll, params := groups\<rparr>),
               cachedRoutes := (cachedRoutes rt)(meth \<mapsto> [path \<mapsto> DynamicRef a])\<rparr>"
  have m: "match M rt meth path = (DynamicRef a, ?rt')"
    using miss nostatic routes sc by (simp add: match_def Let_def)
  have p: "route_params (deref ?rt' (DynamicRef a)) = groups"
    and h: "route_handler (deref ?rt' (DynamicRef a)) = handler (dynamicObjects rt a)"
    and mw: "route_middleware (deref ?rt' (DynamicRef a)) = Some ?coll"
    by (simp_all add: deref_def route_params_def route_handler_def route_middleware_def)
  have "\<exists>es hs.
            trace (snd (handleRoute req (deref ?rt' (DynamicRef a)) s)) = trace s @ es @ hs
            \<and> (\<forall>e\<in>set es. entered e \<noteq> None)
            \<and> ((hs = [] \<and> (\<exists>e. fst (handleRoute req (deref ?rt' (DynamicRef a)) s) = Inl e))
               \<or> (\<exists>c. hs = [EnterHandler c] \<and> c ''params'' = Some (VParams groups)))" for req s
  proof -
    from handleRoute_log[OF mw, of req s] obtain es hs where
      t: "trace (snd (handleRoute req (deref ?rt' (DynamicRef a)) s)) = trace s @ es @ hs"
      and l: "middleware_log (length ?coll) es"
      and c: "(hs = [] \<and> (\<exists>e. fst (handleRoute req (deref ?rt' (DynamicRef a)) s) = Inl e))
               \<or> (\<exists>c. hs = [EnterHandler c] \<and> c ''params''
                     = Some (VParams (route_params (deref ?rt' (DynamicRef a)))))"
      by blast
    have "\<forall>e\<in>set es. entered e \<noteq> None" using l by (auto simp: middleware_log_def)
    then show ?thesis using t c unfolding p by blast
  qed
  then show "\<exists>rt'. match M rt meth path = (DynamicRef a, rt')
      \<and> route_params (deref rt' (DynamicRef a)) = groups
      \<and> route_handler (deref rt' (DynamicRef a)) = handler (dynamicObjects rt a)
      \<and> (\<forall>req s. \<exists>es hs.
            trace (snd (handleRoute req (deref rt' (DynamicRef a)) s)) = trace s @ es @ hs
            \<and> (\<forall>e\<in>set es. entered e \<noteq> None)
            \<and> ((hs = [] \<and> (\<exists>e. fst (handleRoute req (deref rt' (DynamicRef a)) s) = Inl e))
               \<or> (\<exists>c. hs = [EnterHandler c] \<and> c ''params'' = Some (VParams groups))))"
    using m p h by blast
next
  show "case get segment_matcher ''/contacts/:name'' contact new_router of
          Inl e \<Rightarrow> False
        | Inr rt0 \<Rightarrow>
            fst (fst (handle segment_matcher rt0
              \<lparr>req_method = ''GET'', url = ''http://localhost/contacts/ada''\<rparr> fresh))
            = Inr \<lparr>status = 200, body = ''Contact: ada''\<rparr>"
    by (simp add: get_def registration_defs dispatch_defs contact_def)
qed

text \<open>The hypotheses hold for the route of the README and the path \<open>/contacts/ada\<close>.\<close>

theorem dynamic_route_params_witness:
  "\<exists>rt. get segment_matcher ''/contacts/:name'' contact new_router = Inr rt
     \<and> lookup2 (cachedRoutes rt) ''GET'' ''/contacts/ada'' = None
     \<and> lookup2 (staticRoutes rt) ''GET'' ''/contacts/ada'' = None
     \<and> dynamicRoutes rt ''GET'' = Some ([] @ 0 # [])
     \<and> exec segment_matcher (pattern (dynamicObjects rt 0)) ''/contacts/ada''
          = Some [''name'' \<mapsto> ''ada'']
     \<and> (\<exists>rt'. match segment_matcher rt ''GET'' ''/contacts/ada'' = (DynamicRef 0, rt')
           \<and> route_params (deref rt' (DynamicRef 0)) = [''name'' \<mapsto> ''ada''])"
proof -
  obtain rt where rt: "get segment_matcher ''/contacts/:name'' contact new_router = Inr rt"
    by (simp add: get_def registration_defs)
  have 1: "lookup2 (cachedRoutes rt) ''GET'' ''/contacts/ada'' = None"
    and 2: "lookup2 (staticRoutes rt) ''GET'' ''/contacts/ada'' = None"
    and 3: "dynamicRoutes rt ''GET'' = Some ([] @ 0 # [])"
    and 4: "exec segment_matcher (pattern (dynamicObjects rt 0)) ''/contacts/ada''
          = Some [''name'' \<mapsto> ''ada'']"
    using rt by (auto simp: get_def registration_defs lookup2_def)
  have 5: "\<forall>b\<in>set []. exec segment_matcher (pattern (dynamicObjects rt b)) ''/contacts/ada'' = None"
    by simp
  from dynamic_route_params[OF 1 2 3 4 5]
  have "\<exists>rt'. match segment_matcher rt ''GET'' ''/contacts/ada'' = (DynamicRef 0, rt')
           \<and> route_params (deref rt' (DynamicRef 0)) = [''name'' \<mapsto> ''ada'']"
    by blast
  with rt 1 2 3 4 show ?thesis by blast
qed

text \<open>
  C5 as stated fails for a registered route that a later route shadows: with
  \<open>/a/:x\<close> registered before \<open>/a/:y\<close>, the pattern of the first route matches
  \<open>/a/1\<close> and captures \<open>x\<close>, but the handler that is resolved receives the
  captures of the second route, \<open>y\<close> and no \<open>x\<close>.
\<close>

theorem later_route_shadows_captures:
  "case register segment_matcher
          [Add ''GET'' ''/a/:x'' contact, Add ''GET'' ''/a/:y'' marking] new_router of
     Inl e \<Rightarrow> False
   | Inr rt \<Rightarrow>
       lookup2 (cachedRoutes rt) ''GET'' ''/a/1'' = None
       \<and> lookup2 (staticRoutes rt) ''GET'' ''/a/1'' = None
       \<and> dynamicRoutes rt ''GET'' = Some [0, 1]
       \<and> (case exec segment_matcher (pattern (dynamicObjects rt 0)) ''/a/1'' of
             None \<Rightarrow> False | Some groups \<Rightarrow> groups ''x'' = Some ''1'')
       \<and> (case handle segment_matcher rt
                  \<lparr>req_method = ''GET'', url = ''http://localhost/a/1''\<rparr> fresh of
             ((res, s), rt') \<Rightarrow>
               (case last (trace s) of
                  EnterMiddleware i c \<Rightarrow> False
                | EnterHandler c \<Rightarrow> params_of c ''x'' = None \<and> params_of c ''y'' = Some ''1''))"
  by (simp add: registration_defs dispatch_defs lookup2_def contact_def marking_def params_of_def)

section \<open>Requests that resolve to no route\<close>

lemma match_001_unresolved:
  fixes rt0 :: "'h router_001"
  assumes "lookup2 (cachedRoutes_001 rt0) meth path = None"
    and "lookup2 (staticRoutes_001 rt0) meth path = None"
  shows "(dynamicRoutes_001 rt0 meth = None \<longrightarrow>
            match_001 M rt0 meth path
              = (Constant \<lparr>status = 405, body = ''Method Not Allowed''\<rparr>, rt0))
       \<and> (\<forall>routes. dynamicRoutes_001 rt0 meth = Some routes
              \<and> (\<forall>a\<in>set routes. exec M (pattern_001 (dynamicObjects_001 rt0 a)) path = None)
            \<longrightarrow> match_001 M rt0 meth path = (Constant \<lparr>status = 404, body = ''Not Found''\<rparr>, rt0))"
proof -
  have none: "scan_001 M objs path as = None"
    if "\<forall>a\<in>set as. exec M (pattern_001 (objs a)) path = None"
    for objs :: "nat \<Rightarrow> 'h DynamicRoute_001" and as
    using that by (induction as) auto
  show ?thesis using assms
    by (auto simp: match_001_def Let_def none)
qed

text \<open>
  C2, as amended. Take a method and a path that are not names of members of
  \<open>Object.prototype\<close>, and let nothing be cached, no static route be registered and
  no dynamic route match for them. Then \<open>match\<close> of \<open>router.ts\<close> creates a
  route whose handler answers 404 "Not Found", with the selected middleware in front of
  it, whether the method has dynamic routes or not: the dispatch answers 404 unless the
  middleware fails. A 405 "Method Not Allowed" answer for a method without dynamic routes
  is given only by the earlier variant of \<open>match\<close>, which answers 404 when the method
  has dynamic routes and none of them matches. (For a method such as \<open>constructor\<close>
  both variants find an inherited member in place of the method's dynamic routes and
  answer neither 404 nor 405; the statement does not cover such names.)
\<close>

theorem unresolved_is_not_found:
  assumes own_method: "\<not> inherited meth"
    and own_path: "\<not> inherited path"
    and miss: "lookup2 (cachedRoutes rt) meth path = None"
    and nostatic: "lookup2 (staticRoutes rt) meth path = None"
    and nodynamic: "\<forall>routes. dynamicRoutes rt meth = Some routes \<longrightarrow>
        (\<forall>a\<in>set routes. exec M (pattern (dynamicObjects rt a)) path = None)"
  shows "(\<exists>a rt'. match M rt meth path = (StaticRef a, rt')
      \<and> staticObjects rt' a = \<lparr>method = meth, pathname = path, handler = not_found_handler,
            middleware = Some (collect M path (middlewares rt))\<rparr>
      \<and> (\<forall>req s.
            fst (handleRoute req (deref rt' (StaticRef a)) s)
              = Inr \<lparr>status = 404, body = ''Not Found''\<rparr>
            \<or> (\<exists>e. fst (composeMiddleware (collect M path (middlewares rt)) req
                         (s\<lparr>ctx := assign_next_params (ctx s) Map.empty\<rparr>)) = Inl e
                  \<and> fst (handleRoute req (deref rt' (StaticRef a)) s) = Inl e)))
    \<and> (\<forall>rt0 :: 'h router_001.
          lookup2 (cachedRoutes_001 rt0) meth path = None
          \<and> lookup2 (staticRoutes_001 rt0) meth path = None \<longrightarrow>
          (dynamicRoutes_001 rt0 meth = None \<longrightarrow>
             match_001 M rt0 meth path
               = (Constant \<lparr>status = 405, body = ''Method Not Allowed''\<rparr>, rt0))
          \<and> (\<forall>routes. dynamicRoutes_001 rt0 meth = Some routes
                \<and> (\<forall>a\<in>set routes. exec M (pattern_001 (dynamicObjects_001 rt0 a)) path = None)
              \<longrightarrow> match_001 M rt0 meth path
                    = (Constant \<lparr>status = 404, body = ''Not Found''\<rparr>, rt0)))"
proof
  let ?coll = "collect M path (middlewares rt)"
  let ?nf = "\<lparr>method = meth, pathname = path, handler = not_found_handler,
            middleware = Some ?coll\<rparr>"
  let ?a = "staticCount rt"
  let ?rt' = "rt\<lparr>staticObjects := (staticObjects rt)(?a := ?nf), staticCount := Suc ?a,
                cachedRoutes := (cachedRoutes rt)(meth \<mapsto> [path \<mapsto> StaticRef ?a])\<rparr>"
  have sc: "(case dynamicRoutes rt meth of
               Some routes \<Rightarrow> scan M (dynamicObjects rt) path (rev routes)
             | None \<Rightarrow> None) = None"
    using nodynamic by (auto simp: scan_none split: option.splits)
  have m: "match M rt meth path = (StaticRef ?a, ?rt')"
    using miss nostatic sc by (simp add: match_def Let_def)
  have o: "staticObjects ?rt' ?a = ?nf" by simp
  have d: "deref ?rt' (StaticRef ?a) = StaticR ?nf" by (simp add: deref_def)
  have run: "fst (handleRoute req (deref ?rt' (StaticRef ?a)) s)
              = Inr \<lparr>status = 404, body = ''Not Found''\<rparr>
            \<or> (\<exists>e. fst (composeMiddleware ?coll req
                         (s\<lparr>ctx := assign_next_params (ctx s) Map.empty\<rparr>)) = Inl e
                  \<and> fst (handleRoute req (deref ?rt' (StaticRef ?a)) s) = Inl e)" for req s
  proof -
    obtain r s1 where c: "composeMiddleware ?coll req
                         (s\<lparr>ctx := assign_next_params (ctx s) Map.empty\<rparr>) = (r, s1)"
      by (cases "composeMiddleware ?coll req (s\<lparr>ctx := assign_next_params (ctx s) Map.empty\<rparr>)")
    show ?thesis
      using c unfolding d
      by (cases r)
         (simp_all add: handleRoute_def Let_def route_middleware_def route_params_def
            route_handler_def not_found_handler_def)
  qed
  show "\<exists>a rt'. match M rt meth path = (StaticRef a, rt')
      \<and> staticObjects rt' a = ?nf
      \<and> (\<forall>req s.
            fst (handleRoute req (deref rt' (StaticRef a)) s)
              = Inr \<lparr>status = 404, body = ''Not Found''\<rparr>
            \<or> (\<exists>e. fst (composeMiddleware ?coll req
                         (s\<lparr>ctx := assign_next_params (ctx s) Map.empty\<rparr>)) = Inl e
                  \<and> fst (handleRoute req (deref rt' (StaticRef a)) s) = Inl e))"
    using m o run by blast
next
  show "\<forall>rt0 :: 'h router_001.
          lookup2 (cachedRoutes_001 rt0) meth path = None
          \<and> lookup2 (staticRoutes_001 rt0) meth path = None \<longrightarrow>
          (dynamicRoutes_001 rt0 meth = None \<longrightarrow>
             match_001 M rt0 meth path
               = (Constant \<lparr>status = 405, body = ''Method Not Allowed''\<rparr>, rt0))
          \<and> (\<forall>routes. dynamicRoutes_001 rt0 meth = Some routes
                \<and> (\<forall>a\<in>set routes. exec M (pattern_001 (dynamicObjects_001 rt0 a)) path = None)
              \<longrightarrow> match_001 M rt0 meth path
                    = (Constant \<lparr>status = 404, body = ''Not Found''\<rparr>, rt0))"
    using match_001_unresolved by blast
qed

text \<open>
  C2 as stated fails on \<open>router.ts\<close>: with only \<open>GET /x\<close> registered, the method
  \<open>POST\<close> has no dynamic route, and \<open>POST /x\<close> is answered with 404, not 405.
\<close>

theorem no_method_not_allowed:
  "case register segment_matcher [Add ''GET'' ''/x'' marking] new_router of
     Inl e \<Rightarrow> False
   | Inr rt \<Rightarrow>
       lookup2 (cachedRoutes rt) ''POST'' ''/x'' = None
       \<and> lookup2 (staticRoutes rt) ''POST'' ''/x'' = None
       \<and> dynamicRoutes rt ''POST'' = None
       \<and> fst (fst (handle segment_matcher rt
                \<lparr>req_method = ''POST'', url = ''http://localhost/x''\<rparr> fresh))
           = Inr \<lparr>status = 404, body = ''Not Found''\<rparr>"
  by (simp add: registration_defs dispatch_defs)

text \<open>The same registration in both variants: 404 from the first, 405 from the earlier one.\<close>

theorem unresolved_is_not_found_witness:
  "\<exists>rt. register segment_matcher [Add ''GET'' ''/x'' marking] new_router = Inr rt
     \<and> \<not> inherited ''POST'' \<and> \<not> inherited ''/x''
     \<and> lookup2 (cachedRoutes rt) ''POST'' ''/x'' = None
     \<and> lookup2 (staticRoutes rt) ''POST'' ''/x'' = None
     \<and> dynamicRoutes rt ''POST'' = None
     \<and> (\<exists>a rt'. match segment_matcher rt ''POST'' ''/x'' = (StaticRef a, rt')
          \<and> handler (staticObjects rt' a) = not_found_handler)
     \<and> (\<exists>rt0 :: unit router_001. add_001 segment_matcher ''GET'' ''/x'' () new_router_001 = Inr rt0
          \<and> match_001 segment_matcher rt0 ''POST'' ''/x''
               = (Constant \<lparr>status = 405, body = ''Method Not Allowed''\<rparr>, rt0))"
proof -
  obtain rt where rt: "register segment_matcher [Add ''GET'' ''/x'' marking] new_router = Inr rt"
    by (simp add: registration_defs)
  have 1: "lookup2 (cachedRoutes rt) ''POST'' ''/x'' = None"
    and 2: "lookup2 (staticRoutes rt) ''POST'' ''/x'' = None"
    and 3: "dynamicRoutes rt ''POST'' = None"
    using rt by (auto simp: registration_defs lookup2_def)
  have 4: "\<forall>routes. dynamicRoutes rt ''POST'' = Some routes \<longrightarrow>
        (\<forall>a\<in>set routes. exec segment_matcher (pattern (dynamicObjects rt a)) ''/x'' = None)"
    using 3 by simp
  obtain rt0 :: "unit router_001" where rt0: "add_001 segment_matcher ''GET'' ''/x'' () new_router_001 = Inr rt0"
    by (simp add: add_001_def isDynamic_def Let_def)
  have 5: "lookup2 (cachedRoutes_001 rt0) ''POST'' ''/x'' = None"
    and 6: "lookup2 (staticRoutes_001 rt0) ''POST'' ''/x'' = None"
    and 7: "dynamicRoutes_001 rt0 ''POST'' = None"
    using rt0 by (auto simp: add_001_def isDynamic_def Let_def lookup2_def new_router_001_def)
  have 8: "\<not> inherited ''POST''" and 9: "\<not> inherited ''/x''"
    by (simp_all add: inherited_def)
  note inst = unresolved_is_not_found[OF 8 9 1 2 4, where ?'h = unit]
  from inst have a: "\<exists>a rt'. match segment_matcher rt ''POST'' ''/x'' = (StaticRef a, rt')
          \<and> handler (staticObjects rt' a) = not_found_handler"
    by (metis StaticRoute.select_convs(3))
  from inst 5 6 7 have b: "match_001 segment_matcher rt0 ''POST'' ''/x''
               = (Constant \<lparr>status = 405, body = ''Method Not Allowed''\<rparr>, rt0)"
    by blast
  from rt 8 9 1 2 3 a b rt0 show ?thesis by blast
qed

section \<open>Calling next twice, and not at all\<close>

text \<open>
  C4. Let a call of the \<open>next\<close> bound to position \<open>j\<close> have been accepted in a
  chain execution. Whatever the handlers do afterwards leaves \<open>index\<close> at \<open>j\<close> or
  above, and at every such point a second call of the \<open>next\<close> bound to \<open>j\<close>
  returns the failure "next() called multiple times" and changes nothing: no handler is
  run again, and the handler that made the call goes on with that failure as the outcome
  of the call. A failure that the composed middleware returns is the result of
  \<open>#handleRoute\<close>, hence of the dispatch, and the route's handler is not run.
\<close>

theorem second_next_rejected:
  assumes accepted: "index s < int j"
    and first: "invoke mws req (BoundNext j) s = (r, s1)"
    and later: "index s1 \<le> index s2"
  shows "invoke mws req (BoundNext j) s2 = (Inl NextCalledMultipleTimes, s2)
    \<and> (\<forall>k. run_action (invoke mws req) (CallCap (BoundNext j) k) s2
            = run_action (invoke mws req) (k (Inl NextCalledMultipleTimes)) s2)
    \<and> (\<forall>a. index s1 \<le> index (snd (run_action (invoke mws req) a s1)))
    \<and> (\<forall>route s0 e s3.
          route_middleware route = Some mws
          \<and> composeMiddleware mws req
               (s0\<lparr>ctx := assign_next_params (ctx s0) (route_params route)\<rparr>) = (Inl e, s3)
          \<longrightarrow> handleRoute req route s0 = (Inl e, s3))"
proof (intro conjI allI impI)
  have "int j \<le> index (snd (compose_next mws 0 req j s))"
    using accepted by (rule compose_next_reaches)
  then have "int j \<le> index s1" using first by (simp add: invoke_def)
  then have "int j \<le> index s2" using later by simp
  then show rejected: "invoke mws req (BoundNext j) s2 = (Inl NextCalledMultipleTimes, s2)"
    by (simp add: invoke_def compose_next_rejects)
  fix k
  show "run_action (invoke mws req) (CallCap (BoundNext j) k) s2
            = run_action (invoke mws req) (k (Inl NextCalledMultipleTimes)) s2"
    by (simp add: rejected)
next
  fix a
  show "index s1 \<le> index (snd (run_action (invoke mws req) a s1))"
  proof (rule run_action_preserves[where P="\<lambda>x. index s1 \<le> index x"])
    fix c and x :: execution assume "index s1 \<le> index x"
    then show "index s1 \<le> index (snd (invoke mws req c x))"
      by (cases c) (simp_all add: invoke_def compose_next_index_ge)
  qed simp_all
next
  fix route s0 e s3
  assume "route_middleware route = Some mws
          \<and> composeMiddleware mws req
               (s0\<lparr>ctx := assign_next_params (ctx s0) (route_params route)\<rparr>) = (Inl e, s3)"
  then show "handleRoute req route s0 = (Inl e, s3)"
    by (simp add: handleRoute_Some)
qed

text \<open>
  A middleware that calls its \<open>next\<close> twice and returns the second result: the second
  call fails, and so does the dispatch, without entering the route's handler.
\<close>

theorem second_next_rejected_witness:
  "index (fresh\<lparr>index := 0\<rparr>) < int 1
   \<and> invoke [twice] \<lparr>req_method = ''GET'', url = ''http://localhost/x''\<rparr> (BoundNext 1)
        (fresh\<lparr>index := 0\<rparr>) = (Inr empty_response, fresh\<lparr>index := 1\<rparr>)
   \<and> invoke [twice] \<lparr>req_method = ''GET'', url = ''http://localhost/x''\<rparr> (BoundNext 1)
        (fresh\<lparr>index := 1\<rparr>) = (Inl NextCalledMultipleTimes, fresh\<lparr>index := 1\<rparr>)
   \<and> (case register segment_matcher [Use ''/x'' twice, Add ''GET'' ''/x'' marking] new_router of
         Inl e \<Rightarrow> False
       | Inr rt \<Rightarrow>
           (case handle segment_matcher rt
                   \<lparr>req_method = ''GET'', url = ''http://localhost/x''\<rparr> fresh of
              ((res, s), rt') \<Rightarrow>
                res = Inl NextCalledMultipleTimes \<and> map entered (trace s) = [Some 0]))"
proof -
  let ?req = "\<lparr>req_method = ''GET'', url = ''http://localhost/x''\<rparr>"
  have a: "index (fresh\<lparr>index := 0\<rparr>) < int 1" by simp
  have f: "invoke [twice] ?req (BoundNext 1) (fresh\<lparr>index := 0\<rparr>)
      = (Inr empty_response, fresh\<lparr>index := 1\<rparr>)"
    by (simp add: invoke_def fresh_def)
  have l: "index (fresh\<lparr>index := 1\<rparr>) \<le> index (fresh\<lparr>index := 1\<rparr>)" by simp
  have e: "case register segment_matcher [Use ''/x'' twice, Add ''GET'' ''/x'' marking] new_router of
         Inl e \<Rightarrow> False
       | Inr rt \<Rightarrow>
           (case handle segment_matcher rt ?req fresh of
              ((res, s), rt') \<Rightarrow>
                res = Inl NextCalledMultipleTimes \<and> map entered (trace s) = [Some 0])"
    by (simp add: registration_defs dispatch_defs twice_def marking_def)
  from second_next_rejected[OF a f l] a f e show ?thesis by simp
qed

text \<open>
  C1 fails on the code. A middleware registered for \<open>/x\<close> answers 403 without calling
  \<open>next\<close>; the dispatch of \<open>GET /x\<close> nevertheless enters the route's handler
  (after the middleware, as the log shows), the handler's assignment to the context is
  made, and the result of the dispatch is the handler's response, not the middleware's.
\<close>

theorem handler_runs_after_blocking_middleware:
  "case register segment_matcher [Use ''/x'' blocker, Add ''GET'' ''/x'' marking] new_router of
     Inl e \<Rightarrow> False
   | Inr rt \<Rightarrow>
       (case handle segment_matcher rt \<lparr>req_method = ''GET'', url = ''http://localhost/x''\<rparr> fresh of
          ((res, s), rt') \<Rightarrow>
            res = Inr \<lparr>status = 200, body = ''ok''\<rparr>
            \<and> map entered (trace s) = [Some 0, None]
            \<and> ctx s ''ran'' = Some (VStr ''yes''))"
  by (simp add: registration_defs dispatch_defs blocker_def marking_def)

section \<open>Reachable states\<close>

lemma scan_Some_mem: "scan M objs path as = Some (a, g) \<Longrightarrow> a \<in> set as"
  by (induction as) (auto split: option.splits)

lemma router_inv_add:
  assumes "router_inv rt" "add M meth path h rt = Inr rt'"
  shows "router_inv rt'"
proof (cases "isDynamic path")
  case False
  then have rt': "rt' = rt\<lparr>staticObjects := (staticObjects rt)
        (staticCount rt := \<lparr>method = meth, pathname = path, handler = h, middleware = None\<rparr>),
      staticCount := Suc (staticCount rt),
      staticRoutes := (staticRoutes rt)(meth \<mapsto>
         (case staticRoutes rt meth of Some table \<Rightarrow> table(path \<mapsto> staticCount rt)
          | None \<Rightarrow> [path \<mapsto> staticCount rt]))\<rparr>"
    using assms(2) by (simp add: add_def Let_def)
  have 1: "\<forall>m p a. lookup2 (staticRoutes rt') m p = Some a \<longrightarrow> a < staticCount rt'"
    using assms(1) unfolding rt' router_inv_def lookup2_def
    by (auto split: option.splits if_splits simp: less_Suc_eq)
  have 2: "\<forall>m rs. dynamicRoutes rt' m = Some rs \<longrightarrow> (\<forall>a\<in>set rs. a < dynamicCount rt')"
    using assms(1) unfolding rt' router_inv_def by simp
  have 3: "\<forall>m p r. lookup2 (cachedRoutes rt') m p = Some r \<longrightarrow>
            ref_ok rt' r \<and> route_middleware (deref rt' r) \<noteq> None"
  proof (intro allI impI)
    fix m p r assume "lookup2 (cachedRoutes rt') m p = Some r"
    then have "lookup2 (cachedRoutes rt) m p = Some r" by (simp add: rt')
    then have "ref_ok rt r \<and> route_middleware (deref rt r) \<noteq> None"
      using assms(1) by (simp add: router_inv_def)
    then show "ref_ok rt' r \<and> route_middleware (deref rt' r) \<noteq> None"
      unfolding rt' by (cases r) (auto simp: ref_ok_def deref_def route_middleware_def)
  qed
  show ?thesis unfolding router_inv_def using 1 2 3 by blast
next
  case True
  then have rt': "rt' = rt\<lparr>dynamicObjects := (dynamicObjects rt)
        (dynamicCount rt := \<lparr>method = meth, pathname = path, handler = h, middleware = None,
             pattern = path, params = Map.empty\<rparr>),
      dynamicCount := Suc (dynamicCount rt),
      dynamicRoutes := (dynamicRoutes rt)(meth \<mapsto>
         (case dynamicRoutes rt meth of Some routes \<Rightarrow> routes @ [dynamicCount rt]
          | None \<Rightarrow> [dynamicCount rt]))\<rparr>"
    using assms(2) by (simp add: add_def Let_def split: if_splits)
  have 1: "\<forall>m p a. lookup2 (staticRoutes rt') m p = Some a \<longrightarrow> a < staticCount rt'"
    using assms(1) unfolding rt' router_inv_def by simp
  have 2: "\<forall>m rs. dynamicRoutes rt' m = Some rs \<longrightarrow> (\<forall>a\<in>set rs. a < dynamicCount rt')"
    using assms(1) unfolding rt' router_inv_def
    by (auto split: option.splits if_splits simp: less_Suc_eq)
  have 3: "\<forall>m p r. lookup2 (cachedRoutes rt') m p = Some r \<longrightarrow>
            ref_ok rt' r \<and> route_middleware (deref rt' r) \<noteq> None"
  proof (intro allI impI)
    fix m p r assume "lookup2 (cachedRoutes rt') m p = Some r"
    then have "lookup2 (cachedRoutes rt) m p = Some r" by (simp add: rt')
    then have "ref_ok rt r \<and> route_middleware (deref rt r) \<noteq> None"
      using assms(1) by (simp add: router_inv_def)
    then show "ref_ok rt' r \<and> route_middleware (deref rt' r) \<noteq> None"
      unfolding rt' by (cases r) (auto simp: ref_ok_def deref_def route_middleware_def)
  qed
  show ?thesis unfolding router_inv_def using 1 2 3 by blast
qed

lemma router_inv_use:
  assumes "router_inv rt" "use M path h rt = Inr rt'"
  shows "router_inv rt'"
proof -
  from assms(2) obtain ms where "rt' = rt\<lparr>middlewares := ms\<rparr>"
    by (auto simp: use_def split: option.splits if_splits)
  moreover have "ref_ok (rt\<lparr>middlewares := ms\<rparr>) x = ref_ok rt x"
    and "deref (rt\<lparr>middlewares := ms\<rparr>) x = deref rt x" for x
    by (cases x; simp add: ref_ok_def deref_def)+
  ultimately show ?thesis using assms(1)
    by (simp add: router_inv_def)
qed

lemma router_inv_match:
  assumes inv: "router_inv rt" and m: "match M rt meth path = (r, rt')"
  shows "router_inv rt'"
proof (cases "lookup2 (cachedRoutes rt) meth path")
  case (Some c)
  then show ?thesis using assms by (simp add: match_hit)
next
  case None
  let ?coll = "collect M path (middlewares rt)"
  have cache: "cachedRoutes rt' = (cachedRoutes rt)(meth \<mapsto> [path \<mapsto> r])"
    using None m by (rule match_miss_cache)
  have mw: "route_middleware (deref rt' r) = Some ?coll"
    using None m by (rule match_miss_middleware)
  have tables: "staticRoutes rt' = staticRoutes rt" "dynamicRoutes rt' = dynamicRoutes rt"
    using m by (auto simp: match_def Let_def split: option.splits)
  have counts: "staticCount rt \<le> staticCount rt'" "dynamicCount rt' = dynamicCount rt"
    using m by (auto simp: match_def Let_def split: option.splits)
  have rok: "ref_ok rt' r"
  proof (cases "lookup2 (staticRoutes rt) meth path")
    case (Some a)
    then have "r = StaticRef a" "staticCount rt' = staticCount rt"
      using None m by (auto simp: match_def Let_def)
    then show ?thesis using inv Some by (auto simp: router_inv_def ref_ok_def)
  next
    case nostatic: None
    show ?thesis
    proof (cases "case dynamicRoutes rt meth of
                        Some routes \<Rightarrow> scan M (dynamicObjects rt) path (rev routes)
                      | None \<Rightarrow> None")
      case (Some ag)
      obtain a g where ag: "ag = (a, g)" by (cases ag)
      then have r: "r = DynamicRef a" using None nostatic Some m by (auto simp: match_def Let_def)
      from Some ag obtain routes where "dynamicRoutes rt meth = Some routes"
        "scan M (dynamicObjects rt) path (rev routes) = Some (a, g)"
        by (auto split: option.splits)
      then have "a < dynamicCount rt"
        using inv scan_Some_mem[of M "dynamicObjects rt" path "rev routes" a g]
        by (auto simp: router_inv_def)
      then show ?thesis using r counts by (simp add: ref_ok_def)
    next
      case nodyn: None
      then have "r = StaticRef (staticCount rt)" "staticCount rt' = Suc (staticCount rt)"
        using None nostatic m by (auto simp: match_def Let_def)
      then show ?thesis by (simp add: ref_ok_def)
    qed
  qed
  have keep: "ref_ok rt' x \<and> route_middleware (deref rt' x) \<noteq> None"
    if "ref_ok rt x" "route_middleware (deref rt x) \<noteq> None" for x
    using that None m
    by (cases x)
       (auto simp: match_def Let_def ref_ok_def deref_def route_middleware_def
          split: option.splits if_splits)
  have 3: "\<forall>m p x. lookup2 (cachedRoutes rt') m p = Some x \<longrightarrow>
            ref_ok rt' x \<and> route_middleware (deref rt' x) \<noteq> None"
  proof (intro allI impI)
    fix m' p x assume l: "lookup2 (cachedRoutes rt') m' p = Some x"
    show "ref_ok rt' x \<and> route_middleware (deref rt' x) \<noteq> None"
    proof (cases "m' = meth")
      case True
      then have "x = r" using l cache by (auto simp: lookup2_def split: if_splits)
      then show ?thesis using rok mw by simp
    next
      case False
      then have "lookup2 (cachedRoutes rt) m' p = Some x" using l cache by (simp add: lookup2_def)
      then show ?thesis using inv keep by (simp add: router_inv_def)
    qed
  qed
  have 1: "\<forall>m p a. lookup2 (staticRoutes rt') m p = Some a \<longrightarrow> a < staticCount rt'"
    using inv tables counts by (fastforce simp: router_inv_def)
  have 2: "\<forall>m rs. dynamicRoutes rt' m = Some rs \<longrightarrow> (\<forall>a\<in>set rs. a < dynamicCount rt')"
    using inv tables counts by (simp add: router_inv_def)
  show ?thesis unfolding router_inv_def using 1 2 3 by blast
qed

lemma reachable_inv: "reachable M rt \<Longrightarrow> router_inv rt"
proof (induction rule: reachable.induct)
  case reach_new
  then show ?case by (simp add: router_inv_def new_router_def lookup2_def)
qed (auto intro: router_inv_add router_inv_use router_inv_match)

lemma reachable_match_middleware:
  assumes "reachable M rt" "match M rt meth path = (r, rt')"
  shows "route_middleware (deref rt' r) \<noteq> None"
proof -
  have "router_inv rt'" using assms by (auto intro: reachable_inv reach_match)
  moreover have "lookup2 (cachedRoutes rt') meth path = Some r"
    using assms(2) by (rule match_caches)
  ultimately show ?thesis by (simp add: router_inv_def)
qed

section \<open>The context object\<close>

lemma run_reply_dom: "A \<subseteq> dom (ctx s) \<Longrightarrow> A \<subseteq> dom (ctx (snd (run_reply a s)))"
  by (rule run_reply_preserves[where P="\<lambda>x. A \<subseteq> dom (ctx x)"]) auto

lemma handleRoute_shared:
  assumes mw: "route_middleware route = Some coll"
    and run: "handleRoute req route s = (res, s')"
  shows "(\<exists>es. trace s' = trace s @ es
      \<and> sorted_wrt (\<lambda>e1 e2. dom (entered_with e1) \<subseteq> dom (entered_with e2)) es
      \<and> (\<forall>e\<in>set es. insert ''next'' (dom (ctx s)) \<subseteq> dom (entered_with e)
            \<and> dom (entered_with e) \<subseteq> dom (ctx s') \<and> entry_seen route e))
    \<and> insert ''next'' (dom (ctx s)) \<subseteq> dom (ctx s')
    \<and> (\<forall>resp. res = Inr resp \<longrightarrow> ''params'' \<in> dom (ctx s'))"
proof -
  let ?D = "insert ''next'' (dom (ctx s))"
  let ?R = "\<lambda>e1 e2. dom (entered_with e1) \<subseteq> dom (entered_with e2)"
  let ?s0 = "s\<lparr>ctx := assign_next_params (ctx s) (route_params route)\<rparr>"
  let ?Q = "\<lambda>x. \<exists>es. trace x = trace s @ es \<and> sorted_wrt ?R es
      \<and> (\<forall>e\<in>set es. ?D \<subseteq> dom (entered_with e) \<and> dom (entered_with e) \<subseteq> dom (ctx x)
            \<and> entry_seen route e)
      \<and> ?D \<subseteq> dom (ctx x)"
  obtain r s1 where c: "composeMiddleware coll req ?s0 = (r, s1)"
    by (cases "composeMiddleware coll req ?s0")
  have "?Q (snd (compose_next coll 0 req 0 (?s0\<lparr>index := - 1\<rparr>)))"
  proof (rule compose_next_preserves[where P="?Q" and lo=0 and hi="length coll"])
    have "?D \<subseteq> dom (ctx ?s0)" by (auto simp: assign_next_params_def)
    then show "?Q (?s0\<lparr>index := - 1\<rparr>)" by (intro exI[of _ "[]"]) simp
  next
    fix x :: execution and name v assume "?Q x"
    then obtain es where es: "trace x = trace s @ es" "sorted_wrt ?R es"
      "\<forall>e\<in>set es. ?D \<subseteq> dom (entered_with e) \<and> dom (entered_with e) \<subseteq> dom (ctx x)
            \<and> entry_seen route e" "?D \<subseteq> dom (ctx x)" by blast
    have "\<forall>e\<in>set es. ?D \<subseteq> dom (entered_with e)
            \<and> dom (entered_with e) \<subseteq> dom ((ctx x)(name \<mapsto> v)) \<and> entry_seen route e"
      using es(3) by auto
    moreover have "?D \<subseteq> dom ((ctx x)(name \<mapsto> v))" using es(4) by auto
    ultimately show "?Q (x\<lparr>ctx := (ctx x)(name \<mapsto> v)\<rparr>)" using es(1,2)
      by (intro exI[of _ es]) simp
  next
    fix x :: execution and i assume "?Q x"
    then show "?Q (x\<lparr>index := int i\<rparr>)" by simp
  next
    fix x :: execution and i assume "?Q x"
    then obtain es where es: "trace x = trace s @ es" "sorted_wrt ?R es"
      "\<forall>e\<in>set es. ?D \<subseteq> dom (entered_with e) \<and> dom (entered_with e) \<subseteq> dom (ctx x)
            \<and> entry_seen route e" "?D \<subseteq> dom (ctx x)" by blast
    let ?c = "(ctx x)(''next'' \<mapsto> VNext (BoundNext (i + 1)))"
    let ?e = "EnterMiddleware i ?c"
    have new: "?D \<subseteq> dom (entered_with ?e) \<and> dom (entered_with ?e) \<subseteq> dom ?c
        \<and> entry_seen route ?e"
      using es(4) by (auto simp: entry_seen_def)
    have old: "\<forall>e\<in>set es. ?D \<subseteq> dom (entered_with e) \<and> dom (entered_with e) \<subseteq> dom ?c
        \<and> entry_seen route e"
      using es(3) by auto
    have "sorted_wrt ?R (es @ [?e])"
      using es(2) old by (auto simp: sorted_wrt_append)
    moreover have "\<forall>e\<in>set (es @ [?e]). ?D \<subseteq> dom (entered_with e)
        \<and> dom (entered_with e) \<subseteq> dom ?c \<and> entry_seen route e"
      using new old by auto
    moreover have "?D \<subseteq> dom ?c" using es(4) by auto
    ultimately show "?Q (x\<lparr>index := int i, ctx := ?c, trace := trace x @ [?e]\<rparr>)"
      using es(1) by (intro exI[of _ "es @ [?e]"]) simp
  qed simp_all
  then have "?Q s1" using c by (simp add: composeMiddleware_def)
  then obtain es where es: "trace s1 = trace s @ es" "sorted_wrt ?R es"
      "\<forall>e\<in>set es. ?D \<subseteq> dom (entered_with e) \<and> dom (entered_with e) \<subseteq> dom (ctx s1)
            \<and> entry_seen route e" "?D \<subseteq> dom (ctx s1)" by blast
  show ?thesis
  proof (cases r)
    case (Inl e)
    then have "res = Inl e" "s' = s1" using c mw run by (simp_all add: handleRoute_Some)
    then show ?thesis using es by (intro conjI exI[of _ es]) simp_all
  next
    case (Inr x)
    let ?c = "(ctx s1)(''params'' \<mapsto> VParams (route_params route))"
    let ?e = "EnterHandler ?c"
    let ?s2 = "s1\<lparr>ctx := ?c, trace := trace s1 @ [?e]\<rparr>"
    have eq: "run_reply (route_handler route req) ?s2 = (res, s')"
      using c mw run Inr by (simp add: handleRoute_Some)
    have tr: "trace s' = trace s @ es @ [?e]"
      using run_reply_trace[of "route_handler route req" ?s2] eq es(1) by simp
    have sub: "dom ?c \<subseteq> dom (ctx s')"
      using run_reply_dom[of "dom ?c" ?s2 "route_handler route req"] eq by simp
    have new: "?D \<subseteq> dom (entered_with ?e) \<and> dom (entered_with ?e) \<subseteq> dom (ctx s')
        \<and> entry_seen route ?e"
      using es(4) sub by (auto simp: entry_seen_def)
    have s1c: "dom (ctx s1) \<subseteq> dom (ctx s')" using sub by auto
    have s1c2: "dom (ctx s1) \<subseteq> dom ?c" by auto
    have old: "\<forall>e\<in>set es. ?D \<subseteq> dom (entered_with e) \<and> dom (entered_with e) \<subseteq> dom (ctx s')
        \<and> entry_seen route e"
    proof
      fix e assume "e \<in> set es"
      with es(3) have e: "?D \<subseteq> dom (entered_with e)" "dom (entered_with e) \<subseteq> dom (ctx s1)"
        "entry_seen route e" by blast+
      from e(2) s1c have "dom (entered_with e) \<subseteq> dom (ctx s')" by (rule order_trans)
      with e(1,3) show "?D \<subseteq> dom (entered_with e) \<and> dom (entered_with e) \<subseteq> dom (ctx s')
        \<and> entry_seen route e" by blast
    qed
    have old_c: "\<forall>e\<in>set es. dom (entered_with e) \<subseteq> dom ?c"
    proof
      fix e assume "e \<in> set es"
      with es(3) have "dom (entered_with e) \<subseteq> dom (ctx s1)" by blast
      then show "dom (entered_with e) \<subseteq> dom ?c" using s1c2 by (rule order_trans)
    qed
    have 1: "sorted_wrt ?R (es @ [?e])"
      using es(2) old_c by (auto simp: sorted_wrt_append)
    have 2: "\<forall>e\<in>set (es @ [?e]). ?D \<subseteq> dom (entered_with e)
        \<and> dom (entered_with e) \<subseteq> dom (ctx s') \<and> entry_seen route e"
      using new old by auto
    have 3: "?D \<subseteq> dom (ctx s')" using es(4) sub by auto
    have 4: "''params'' \<in> dom (ctx s')" using sub by auto
    show ?thesis using tr 1 2 3 4 by (intro conjI exI[of _ "es @ [?e]"]) simp_all
  qed
qed

text \<open>
  C10. In every state a router can reach, a dispatch works on the context it is given:
  every handler is entered with a context that has the properties the caller passed and
  \<open>next\<close>, and all the properties the handlers entered before it found; a middleware
  finds under \<open>next\<close> the function bound to the position behind its own, the route's
  handler finds the route's parameters under \<open>params\<close>. What any handler found is
  still a property of the context when the dispatch is over, with \<open>next\<close>, and with
  \<open>params\<close> whenever the dispatch returns a response.
\<close>

theorem context_shared_in_place:
  assumes reach: "reachable M rt"
    and resolved: "match M rt (req_method req) (extract_pathname (url req)) = (r, rt')"
    and ran: "handleRoute req (deref rt' r) s = (res, s')"
  shows "handle M rt req s = ((res, s'), rt')
    \<and> (\<exists>es. trace s' = trace s @ es
        \<and> sorted_wrt (\<lambda>e1 e2. dom (entered_with e1) \<subseteq> dom (entered_with e2)) es
        \<and> (\<forall>e\<in>set es. insert ''next'' (dom (ctx s)) \<subseteq> dom (entered_with e)
              \<and> dom (entered_with e) \<subseteq> dom (ctx s') \<and> entry_seen (deref rt' r) e))
    \<and> insert ''next'' (dom (ctx s)) \<subseteq> dom (ctx s')
    \<and> (\<forall>resp. res = Inr resp \<longrightarrow> ''params'' \<in> dom (ctx s'))"
proof -
  have h: "handle M rt req s = ((res, s'), rt')"
    using resolved ran by (simp add: handle_def)
  from reachable_match_middleware[OF reach resolved]
  obtain coll where "route_middleware (deref rt' r) = Some coll" by blast
  from handleRoute_shared[OF this ran] h show ?thesis by (intro conjI) simp_all
qed

text \<open>
  A dispatch through one middleware: the caller's own property, the property the
  middleware assigned, \<open>next\<close> and \<open>params\<close> are on the context afterwards.
\<close>

theorem context_shared_in_place_witness:
  "\<exists>rt. register segment_matcher [Use ''/x'' (tagger ''seen''), Add ''GET'' ''/x'' marking]
          new_router = Inr rt
     \<and> reachable segment_matcher rt
     \<and> (case handle segment_matcher rt \<lparr>req_method = ''GET'', url = ''http://localhost/x''\<rparr>
               (fresh\<lparr>ctx := [''user'' \<mapsto> VStr ''ada'']\<rparr>) of
          ((res, s'), rt') \<Rightarrow>
            res = Inr \<lparr>status = 200, body = ''ok''\<rparr>
            \<and> {''user'', ''next'', ''params''} \<subseteq> dom (ctx s')
            \<and> ctx s' ''seen'' = Some (VStr ''yes'')
            \<and> ctx s' ''next'' = Some (VNext (BoundNext 1))
            \<and> ctx s' ''user'' = Some (VStr ''ada''))"
proof -
  let ?req = "\<lparr>req_method = ''GET'', url = ''http://localhost/x''\<rparr>"
  let ?s = "fresh\<lparr>ctx := [''user'' \<mapsto> VStr ''ada'']\<rparr>"
  obtain rt1 where 1: "use segment_matcher ''/x'' (tagger ''seen'') new_router = Inr rt1"
    by (simp add: registration_defs)
  obtain rt where 2: "add segment_matcher ''GET'' ''/x'' marking rt1 = Inr rt"
    by (simp add: registration_defs)
  have reg: "register segment_matcher [Use ''/x'' (tagger ''seen''), Add ''GET'' ''/x'' marking]
          new_router = Inr rt"
    using 1 2 by (simp add: register1_def)
  have reach: "reachable segment_matcher rt"
    using reach_add[OF reach_use[OF reach_new 1] 2] .
  obtain r rt' where m: "match segment_matcher rt (req_method ?req) (extract_pathname (url ?req))
      = (r, rt')"
    by (cases "match segment_matcher rt (req_method ?req) (extract_pathname (url ?req))")
  obtain res s' where h: "handleRoute ?req (deref rt' r) ?s = (res, s')"
    by (cases "handleRoute ?req (deref rt' r) ?s")
  note inst = context_shared_in_place[OF reach m h]
  have eq: "handle segment_matcher rt ?req ?s = ((res, s'), rt')"
    by (rule conjunct1[OF inst])
  have dom: "insert ''next'' (dom (ctx ?s)) \<subseteq> dom (ctx s')"
    by (rule conjunct1[OF conjunct2[OF conjunct2[OF inst]]])
  have par: "\<forall>resp. res = Inr resp \<longrightarrow> ''params'' \<in> dom (ctx s')"
    by (rule conjunct2[OF conjunct2[OF conjunct2[OF inst]]])
  have ev: "case handle segment_matcher rt ?req ?s of
          ((res, s'), rt') \<Rightarrow>
            res = Inr \<lparr>status = 200, body = ''ok''\<rparr>
            \<and> ctx s' ''seen'' = Some (VStr ''yes'')
            \<and> ctx s' ''next'' = Some (VNext (BoundNext 1))
            \<and> ctx s' ''user'' = Some (VStr ''ada'')"
    using reg[symmetric] by (simp add: registration_defs dispatch_defs tagger_def marking_def)
  then have res: "res = Inr \<lparr>status = 200, body = ''ok''\<rparr>"
    and vals: "ctx s' ''seen'' = Some (VStr ''yes'')" "ctx s' ''next'' = Some (VNext (BoundNext 1))"
      "ctx s' ''user'' = Some (VStr ''ada'')"
    unfolding eq by simp_all
  have "''params'' \<in> dom (ctx s')" using par res by blast
  moreover have "''user'' \<in> dom (ctx s')" "''next'' \<in> dom (ctx s')"
    using dom by (auto simp: fresh_def)
  ultimately have sub: "{''user'', ''next'', ''params''} \<subseteq> dom (ctx s')" by blast
  have final: "case handle segment_matcher rt ?req ?s of
          ((res, s'), rt') \<Rightarrow>
            res = Inr \<lparr>status = 200, body = ''ok''\<rparr>
            \<and> {''user'', ''next'', ''params''} \<subseteq> dom (ctx s')
            \<and> ctx s' ''seen'' = Some (VStr ''yes'')
            \<and> ctx s' ''next'' = Some (VNext (BoundNext 1))
            \<and> ctx s' ''user'' = Some (VStr ''ada'')"
    unfolding eq using res sub vals by simp
  show ?thesis
    by (intro exI[of _ rt] conjI) (fact reg reach final)+
qed

end
